theory Spec2Isabelle
  imports
    Main
    "HOL-Library.Word"
    "HOL-Library.Char_ord"
    "HOL-Library.List_Lexorder"
    "HOL-Library.Product_Lexorder"
begin

section \<open>C strings, integers and keys (stab.c, lines 38-97)\<close>

text \<open>
  A C string is modelled by the list of its bytes before the terminating NUL, so
  \<open>strlen\<close> is the length of the list. \<open>address_t\<close> (declared in util.h) is an
  unsigned 32-bit integer; the \<open>int value\<close> that \<open>stab_set\<close> receives is a 32-bit
  word as well, and the assignment \<open>address_t addr = value\<close> keeps its bits.
\<close>

type_synonym address_t = "32 word"

definition strlen :: "string \<Rightarrow> nat" where
  "strlen text = length text"

text \<open>
  \<open>strcmp\<close> compares byte by byte, the bytes read as unsigned char; a string that ends
  first is the smaller one (its terminator is the byte 0). C fixes only the sign of the
  result: the model returns -1, 0 or 1.
\<close>

fun strcmp :: "string \<Rightarrow> string \<Rightarrow> int" where
  "strcmp [] [] = 0"
| "strcmp [] (r # rs) = -1"
| "strcmp (l # ls) [] = 1"
| "strcmp (l # ls) (r # rs) =
     (if (of_char l :: nat) < of_char r then -1
      else if (of_char r :: nat) < of_char l then 1
      else strcmp ls rs)"

text \<open>
  \<open>struct sym_key { char name[64]; }\<close>: only the bytes before the first NUL of the
  buffer are ever read (by \<open>strcmp\<close> and \<open>strncpy\<close>), so the key is that string.
\<close>

type_synonym sym_key = string

definition sym_key_compare :: "sym_key \<Rightarrow> sym_key \<Rightarrow> int" where
  "sym_key_compare left right = strcmp left right"

text \<open>
  \<open>int len = strlen(text)\<close> keeps the low 32 bits of the length. In
  \<open>len >= sizeof(key->name)\<close> the int is converted to the unsigned \<open>size_t\<close>, so a
  negative \<open>len\<close> compares as a huge value: the test is the unsigned comparison of the
  32-bit word with 64.
\<close>

definition sym_key_init :: "string \<Rightarrow> sym_key" where
  "sym_key_init text =
     (let len = (of_nat (strlen text) :: 32 word);
          len = (if 64 \<le> len then 64 - 1 else len)
      in take (unat len) text)"

text \<open>\<open>struct addr_key { address_t addr; char name[64]; }\<close> as the pair (addr, name).\<close>

type_synonym addr_key = "address_t \<times> string"

definition addr_key_compare :: "addr_key \<Rightarrow> addr_key \<Rightarrow> int" where
  "addr_key_compare kl kr =
     (if fst kl < fst kr then -1
      else if fst kl > fst kr then 1
      else strcmp (snd kl) (snd kr))"

definition addr_key_init :: "address_t \<Rightarrow> string \<Rightarrow> addr_key" where
  "addr_key_init a text =
     (let len = (of_nat (strlen text) :: 32 word);
          len = (if 64 \<le> len then 64 - 1 else len)
      in (a, take (unat len) text))"

section \<open>The ordered index (btree.h, btree.c)\<close>

text \<open>
  Modelled from the spec: btree.c and btree.h are not among the sources. The spec asks
  for a generic ordered associative container with insert (upsert on a duplicate key,
  may fail), exact lookup, delete (success or not-found), clear, and a seek with the
  modes less-or-equal, first and next. The model is the list of the (key, value)
  entries in ascending key order, the order being the index's compare function. Return
  codes follow the tests stab.c makes: 0 is success, a negative code is an error, 1 is
  not-found.
\<close>

type_synonym ('k, 'v) btree = "('k \<times> 'v) list"

definition btree_clear :: "('k, 'v) btree \<Rightarrow> ('k, 'v) btree" where
  "btree_clear bt = []"

text \<open>
  Modelled from the spec: exact lookup. \<open>Some v\<close> stands for the return code 0 with
  \<open>v\<close> written to the data pointer, \<open>None\<close> for a non-zero return code with nothing
  written.
\<close>

fun btree_get :: "('k \<Rightarrow> 'k \<Rightarrow> int) \<Rightarrow> ('k, 'v) btree \<Rightarrow> 'k \<Rightarrow> 'v option" where
  "btree_get cmp [] key = None"
| "btree_get cmp ((k, v) # bt) key =
     (if cmp k key = 0 then Some v else btree_get cmp bt key)"

fun btree_insert :: "('k \<Rightarrow> 'k \<Rightarrow> int) \<Rightarrow> 'k \<Rightarrow> 'v \<Rightarrow> ('k, 'v) btree \<Rightarrow> ('k, 'v) btree" where
  "btree_insert cmp key data [] = [(key, data)]"
| "btree_insert cmp key data ((k, v) # bt) =
     (if cmp key k < 0 then (key, data) # (k, v) # bt
      else if cmp key k = 0 then (key, data) # bt
      else (k, v) # btree_insert cmp key data bt)"

text \<open>
  Modelled from the spec: insert with upsert semantics. Whether the insert can obtain
  the memory it needs is not decided by the index contents, so it is the parameter
  \<open>ok\<close>; a failed insert returns -1 and leaves the index as it was.
\<close>

definition btree_put ::
  "('k \<Rightarrow> 'k \<Rightarrow> int) \<Rightarrow> bool \<Rightarrow> ('k, 'v) btree \<Rightarrow> 'k \<Rightarrow> 'v \<Rightarrow> int \<times> ('k, 'v) btree" where
  "btree_put cmp ok bt key data =
     (if ok then (0, btree_insert cmp key data bt) else (-1, bt))"

fun btree_remove :: "('k \<Rightarrow> 'k \<Rightarrow> int) \<Rightarrow> 'k \<Rightarrow> ('k, 'v) btree \<Rightarrow> ('k, 'v) btree" where
  "btree_remove cmp key [] = []"
| "btree_remove cmp key ((k, v) # bt) =
     (if cmp k key = 0 then bt else (k, v) # btree_remove cmp key bt)"

text \<open>Modelled from the spec: delete, 0 when the key was there and 1 (not-found) otherwise.\<close>

definition btree_delete ::
  "('k \<Rightarrow> 'k \<Rightarrow> int) \<Rightarrow> ('k, 'v) btree \<Rightarrow> 'k \<Rightarrow> int \<times> ('k, 'v) btree" where
  "btree_delete cmp bt key =
     (case btree_get cmp bt key of
        None \<Rightarrow> (1, bt)
      | Some v \<Rightarrow> (0, btree_remove cmp key bt))"

datatype btree_selmode_t = BTREE_LE | BTREE_FIRST | BTREE_NEXT

text \<open>
  Modelled from the spec: the position of the last entry whose key is less than or
  equal to the probe (the predecessor search), walking the entries in ascending order.
\<close>

fun btree_find_le :: "('k \<Rightarrow> 'k \<Rightarrow> int) \<Rightarrow> ('k, 'v) btree \<Rightarrow> 'k \<Rightarrow> nat option" where
  "btree_find_le cmp [] key = None"
| "btree_find_le cmp ((k, v) # bt) key =
     (if cmp k key \<le> 0
      then (case btree_find_le cmp bt key of None \<Rightarrow> Some 0 | Some i \<Rightarrow> Some (Suc i))
      else None)"

text \<open>
  Modelled from the spec: seek. The index keeps a cursor, the position of the entry the
  last seek returned. No operation of stab.c other than the seek itself reads the
  cursor, so the model passes it in and returns it instead of storing it in the index.
  The result is the new cursor and the entry found; \<open>None\<close> for the entry stands for a
  non-zero return code with nothing written to the key pointer.
\<close>

definition btree_select ::
  "('k \<Rightarrow> 'k \<Rightarrow> int) \<Rightarrow> ('k, 'v) btree \<Rightarrow> nat option \<Rightarrow> 'k option \<Rightarrow> btree_selmode_t
     \<Rightarrow> nat option \<times> ('k \<times> 'v) option" where
  "btree_select cmp bt cursor key mode =
     (case mode of
        BTREE_LE \<Rightarrow>
          (case key of
             None \<Rightarrow> (None, None)
           | Some k \<Rightarrow>
               (case btree_find_le cmp bt k of
                  None \<Rightarrow> (None, None)
                | Some i \<Rightarrow> (Some i, Some (bt ! i))))
      | BTREE_FIRST \<Rightarrow>
          (if bt = [] then (None, None) else (Some 0, Some (bt ! 0)))
      | BTREE_NEXT \<Rightarrow>
          (case cursor of
             None \<Rightarrow> (None, None)
           | Some i \<Rightarrow>
               (if Suc i < length bt then (Some (Suc i), Some (bt ! Suc i))
                else (None, None))))"

section \<open>Symbol table methods (stab.c, lines 119-224)\<close>

record stab =
  sym :: "(sym_key, address_t) btree"
  addr :: "(addr_key, unit) btree"

text \<open>\<open>stab_new\<close> when every allocation succeeds: two empty indexes.\<close>

definition stab_new :: stab where
  "stab_new = \<lparr>sym = [], addr = []\<rparr>"

definition stab_clear :: "stab \<Rightarrow> stab" where
  "stab_clear st = \<lparr>sym = btree_clear (sym st), addr = btree_clear (addr st)\<rparr>"

text \<open>
  \<open>stab_set\<close>. The two booleans say whether the insert into the address index and the
  insert into the name index can succeed. The result of \<open>btree_delete\<close> is dropped, as
  in the source; \<open>||\<close> does not evaluate the second insert when the first one failed.
\<close>

definition stab_set :: "bool \<Rightarrow> bool \<Rightarrow> stab \<Rightarrow> string \<Rightarrow> 32 word \<Rightarrow> int \<times> stab" where
  "stab_set ok_addr ok_sym st name' val =
     (let skey = sym_key_init name';
          a = (val :: address_t);
          addr1 = (case btree_get sym_key_compare (sym st) skey of
                     Some old_addr \<Rightarrow>
                       snd (btree_delete addr_key_compare (addr st) (addr_key_init old_addr skey))
                   | None \<Rightarrow> addr st);
          akey = addr_key_init a name';
          (r1, addr2) = btree_put addr_key_compare ok_addr addr1 akey ()
      in if r1 < 0 then (-1, \<lparr>sym = sym st, addr = addr2\<rparr>)
         else (let (r2, sym2) = btree_put sym_key_compare ok_sym (sym st) skey a
               in if r2 < 0 then (-1, \<lparr>sym = sym2, addr = addr2\<rparr>)
                  else (0, \<lparr>sym = sym2, addr = addr2\<rparr>)))"

text \<open>
  \<open>stab_nearest\<close>. \<open>ret_name\<close> and \<open>ret_offset\<close> are the contents of the caller's
  output locations before the call; the result holds the return code and their contents
  after it. \<open>strncpy\<close> followed by \<open>ret_name[max_len - 1] = 0\<close> leaves the first
  \<open>max_len - 1\<close> bytes of the name in the buffer. With \<open>max_len \<le> 0\<close> the store to
  \<open>ret_name[max_len - 1]\<close> is outside the buffer: the behaviour is undefined, \<open>None\<close>.
\<close>

definition stab_nearest ::
  "stab \<Rightarrow> address_t \<Rightarrow> string \<Rightarrow> int \<Rightarrow> address_t \<Rightarrow> (int \<times> string \<times> address_t) option" where
  "stab_nearest st a ret_name max_len ret_offset =
     (let akey = (a, replicate 64 (CHR 0xFF))
      in case btree_select addr_key_compare (addr st) None (Some akey) BTREE_LE of
           (_, Some (akey', _)) \<Rightarrow>
             (if max_len \<le> 0 then None
              else Some (0, take (nat (max_len - 1)) (snd akey'), a - fst akey'))
         | (_, None) \<Rightarrow> Some (-1, ret_name, ret_offset))"

text \<open>\<open>stab_get\<close>: \<open>val\<close> is the content of \<open>*value\<close> before the call.\<close>

definition stab_get :: "stab \<Rightarrow> string \<Rightarrow> address_t \<Rightarrow> int \<times> address_t" where
  "stab_get st name' val =
     (let skey = sym_key_init name'
      in case btree_get sym_key_compare (sym st) skey of
           None \<Rightarrow> (-1, val)
         | Some a \<Rightarrow> (0, a))"

definition stab_del :: "stab \<Rightarrow> string \<Rightarrow> int \<times> stab" where
  "stab_del st name' =
     (let skey = sym_key_init name'
      in case btree_get sym_key_compare (sym st) skey of
           None \<Rightarrow> (-1, st)
         | Some val \<Rightarrow>
             (let akey = addr_key_init val name'
              in (0, \<lparr>sym = snd (btree_delete sym_key_compare (sym st) skey),
                      addr = snd (btree_delete addr_key_compare (addr st) akey)\<rparr>)))"

text \<open>
  \<open>stab_callback_t\<close>: the visitor gets the user data, a name and an address, and
  returns a code; the model also returns the user data as the visitor leaves it.
\<close>

type_synonym 'u stab_callback_t = "'u \<Rightarrow> string \<Rightarrow> address_t \<Rightarrow> int \<times> 'u"

text \<open>
  The while loop of \<open>stab_enum\<close>: \<open>sel\<close> is the result of the last seek (its cursor and
  the key it wrote to \<open>akey\<close>, if it found one).
\<close>

function stab_enum_loop ::
  "(addr_key, unit) btree \<Rightarrow> 'u stab_callback_t \<Rightarrow> 'u
     \<Rightarrow> nat option \<times> (addr_key \<times> unit) option \<Rightarrow> int \<times> 'u" where
  "stab_enum_loop bt cb user_data sel =
     (case snd sel of
        None \<Rightarrow> (0, user_data)
      | Some (akey, u) \<Rightarrow>
          (let (r, user_data') = cb user_data (snd akey) (fst akey)
           in if r < 0 then (-1, user_data')
              else stab_enum_loop bt cb user_data'
                     (btree_select addr_key_compare bt (fst sel) None BTREE_NEXT)))"
  by pat_completeness auto
termination
proof (relation "measure (\<lambda>(bt, cb, user_data, sel).
          (case snd sel of None \<Rightarrow> 0
           | Some e \<Rightarrow> Suc (case fst sel of None \<Rightarrow> 0 | Some i \<Rightarrow> length bt - i)))")
  show "wf (measure (\<lambda>(bt :: (addr_key, unit) btree, cb :: 'u stab_callback_t, user_data :: 'u,
              sel :: nat option \<times> (addr_key \<times> unit) option).
          (case snd sel of None \<Rightarrow> 0
           | Some e \<Rightarrow> Suc (case fst sel of None \<Rightarrow> 0 | Some i \<Rightarrow> length bt - i))))"
    by simp
next
  fix bt :: "(addr_key, unit) btree" and cb :: "'u stab_callback_t" and user_data :: 'u
    and sel :: "nat option \<times> (addr_key \<times> unit) option" and x2 x y xa ya
  assume "snd sel = Some x2"
  then show "((bt, cb, ya, btree_select addr_key_compare bt (fst sel) None BTREE_NEXT),
              bt, cb, user_data, sel)
             \<in> measure (\<lambda>(bt, cb, user_data, sel).
                 (case snd sel of None \<Rightarrow> 0
                  | Some e \<Rightarrow> Suc (case fst sel of None \<Rightarrow> 0 | Some i \<Rightarrow> length bt - i)))"
    by (auto simp: btree_select_def split: option.splits)
qed

definition stab_enum :: "stab \<Rightarrow> 'u stab_callback_t \<Rightarrow> 'u \<Rightarrow> int \<times> 'u" where
  "stab_enum st cb user_data =
     stab_enum_loop (addr st) cb user_data
       (btree_select addr_key_compare (addr st) None None BTREE_FIRST)"

section \<open>Table states\<close>

text \<open>
  The representation invariant of the two indexes: the entries of each are in strictly
  ascending key order for the index's compare function, and every stored name fits the
  64-byte buffer with its terminator.
\<close>

definition btree_sorted :: "('k \<Rightarrow> 'k \<Rightarrow> int) \<Rightarrow> ('k, 'v) btree \<Rightarrow> bool" where
  "btree_sorted cmp bt = sorted_wrt (\<lambda>x y. cmp (fst x) (fst y) < 0) bt"

definition stab_wf :: "stab \<Rightarrow> bool" where
  "stab_wf st \<longleftrightarrow>
     btree_sorted sym_key_compare (sym st) \<and>
     btree_sorted addr_key_compare (addr st) \<and>
     list_all (\<lambda>e. length (fst e) < 64) (sym st) \<and>
     list_all (\<lambda>e. length (snd (fst e)) < 64) (addr st)"

text \<open>
  Histories of public mutations in which no index insert fails, so that every
  \<open>stab_set\<close> completes successfully; \<open>run ops\<close> is the table they leave, starting
  from a new table.
\<close>

datatype stab_op = Op_set string "32 word" | Op_del string | Op_clear

fun stab_apply :: "stab \<Rightarrow> stab_op \<Rightarrow> stab" where
  "stab_apply st (Op_set n v) = snd (stab_set True True st n v)"
| "stab_apply st (Op_del n) = snd (stab_del st n)"
| "stab_apply st Op_clear = stab_clear st"

definition run :: "stab_op list \<Rightarrow> stab" where
  "run ops = foldl stab_apply stab_new ops"

text \<open>The two indexes hold the same (name, address) pairs.\<close>

definition stab_consistent :: "stab \<Rightarrow> bool" where
  "stab_consistent st \<longleftrightarrow>
     stab_wf st \<and> fst ` set (addr st) = (\<lambda>e. (snd e, fst e)) ` set (sym st)"

text \<open>The stored (name, address) entries in the order of the address index.\<close>

definition stab_entries :: "stab \<Rightarrow> (string \<times> address_t) list" where
  "stab_entries st = map (\<lambda>e. (snd (fst e), fst (fst e))) (addr st)"

text \<open>
  A visitor that also records each of its invocations: the name and the address it was
  given and the code it returned.
\<close>

definition logged ::
  "'u stab_callback_t \<Rightarrow> ('u \<times> (string \<times> address_t \<times> int) list) stab_callback_t" where
  "logged cb = (\<lambda>ul n a. case cb (fst ul) n a of (r, u') \<Rightarrow> (r, (u', snd ul @ [(n, a, r)])))"

text \<open>The address index after the first step of \<open>stab_set\<close>: the stale entry is gone.\<close>

definition addr_without :: "stab \<Rightarrow> sym_key \<Rightarrow> (addr_key, unit) btree" where
  "addr_without st skey =
     (case btree_get sym_key_compare (sym st) skey of
        Some old_addr \<Rightarrow> btree_remove addr_key_compare (old_addr, skey) (addr st)
      | None \<Rightarrow> addr st)"

text \<open>A history used as a concrete example: two names end up sharing one address.\<close>

definition history1 :: "stab_op list" where
  "history1 = [Op_set ''foo'' 0x1000, Op_set ''bar'' 0x2000, Op_set ''foo'' 0x2000,
               Op_del ''bar'', Op_set ''baz'' 0x2000]"

text \<open>Two more concrete examples: a table with one name, and a name of 70 bytes.\<close>

definition table_foo :: stab where
  "table_foo = \<lparr>sym = [(''foo'', 0x1000)], addr = [((0x1000, ''foo''), ())]\<rparr>"

definition long_name :: string where
  "long_name = replicate 70 (CHR ''x'')"

text \<open>Concrete examples: a table with one two-byte name, and a table with two names at one address.\<close>

definition table_ab :: stab where
  "table_ab = \<lparr>sym = [(''ab'', 0x100)], addr = [((0x100, ''ab''), ())]\<rparr>"

definition table_alias :: stab where
  "table_alias = \<lparr>sym = [(''a'', 0x100), (''b'', 0x100), (''c'', 0x300)],
                   addr = [((0x100, ''a''), ()), ((0x100, ''b''), ()), ((0x300, ''c''), ())]\<rparr>"

text \<open>The traversal as a recursion over the entries that are left to visit.\<close>

fun enum_from :: "'u stab_callback_t \<Rightarrow> (addr_key, unit) btree \<Rightarrow> 'u \<Rightarrow> int \<times> 'u" where
  "enum_from cb [] user_data = (0, user_data)"
| "enum_from cb (e # es) user_data =
     (case cb user_data (snd (fst e)) (fst (fst e)) of
        (r, user_data') \<Rightarrow> if r < 0 then (-1, user_data') else enum_from cb es user_data')"

text \<open>A visitor that counts its calls in the user data and fails on the name b.\<close>

definition fail_on_b :: "nat stab_callback_t" where
  "fail_on_b = (\<lambda>u n a. (if n = ''b'' then -1 else 0, Suc u))"

text \<open>
  Tables on the way to a failed update: after set(n, 1), and after a following
  set(n, 2) whose name-index insert failed.
\<close>

definition table_n :: stab where
  "table_n = \<lparr>sym = [(''n'', 1)], addr = [((1, ''n''), ())]\<rparr>"

definition table_half :: stab where
  "table_half = \<lparr>sym = [(''n'', 1)], addr = [((2, ''n''), ())]\<rparr>"

text \<open>A name of \<open>2^32 + 5\<close> bytes: its length does not fit the 32 bits of an int.\<close>

definition huge_name :: string where
  "huge_name = replicate (2 ^ 32 + 5) (CHR ''x'')"

section \<open>The compare functions are linear orders\<close>

lemma strcmp_less: "strcmp l r < 0 \<longleftrightarrow> l < r"
  by (induction l r rule: strcmp.induct) (auto simp: less_char_def)

lemma strcmp_eq: "strcmp l r = 0 \<longleftrightarrow> l = r"
  by (induction l r rule: strcmp.induct) auto

lemma strcmp_le: "strcmp l r \<le> 0 \<longleftrightarrow> l \<le> r"
  using strcmp_less [of l r] strcmp_eq [of l r] by (auto simp: order_le_less)

lemma sym_key_compare_less: "sym_key_compare l r < 0 \<longleftrightarrow> l < r"
  by (simp add: sym_key_compare_def strcmp_less)

lemma sym_key_compare_eq: "sym_key_compare l r = 0 \<longleftrightarrow> l = r"
  by (simp add: sym_key_compare_def strcmp_eq)

lemma addr_key_compare_less: "addr_key_compare kl kr < 0 \<longleftrightarrow> kl < kr"
  by (cases kl; cases kr) (auto simp: addr_key_compare_def strcmp_less)

lemma addr_key_compare_eq: "addr_key_compare kl kr = 0 \<longleftrightarrow> kl = kr"
  by (cases kl; cases kr) (auto simp: addr_key_compare_def strcmp_eq)

lemma addr_key_compare_le: "addr_key_compare kl kr \<le> 0 \<longleftrightarrow> kl \<le> kr"
  using addr_key_compare_less [of kl kr] addr_key_compare_eq [of kl kr]
  by (auto simp: order_le_less)

section \<open>The ordered index keeps its entries sorted\<close>

lemma btree_sorted_map:
  fixes cmp :: "'k::linorder \<Rightarrow> 'k \<Rightarrow> int"
  assumes lt: "\<And>a b. cmp a b < 0 \<longleftrightarrow> a < b"
  shows "btree_sorted cmp bt \<longleftrightarrow> sorted_wrt (<) (map fst bt)"
  by (simp add: btree_sorted_def sorted_wrt_map lt)

lemma btree_sorted_Cons:
  fixes cmp :: "'k::linorder \<Rightarrow> 'k \<Rightarrow> int"
  assumes lt: "\<And>a b. cmp a b < 0 \<longleftrightarrow> a < b"
  shows "btree_sorted cmp (e # bt) \<longleftrightarrow> (\<forall>x \<in> set bt. fst e < fst x) \<and> btree_sorted cmp bt"
  by (simp add: btree_sorted_def lt)

lemma btree_sorted_distinct:
  fixes cmp :: "'k::linorder \<Rightarrow> 'k \<Rightarrow> int"
  assumes lt: "\<And>a b. cmp a b < 0 \<longleftrightarrow> a < b"
  shows "btree_sorted cmp bt \<Longrightarrow> distinct (map fst bt)"
  by (simp add: btree_sorted_map [of cmp, OF lt] strict_sorted_iff)

lemma btree_get_map_of:
  assumes eq: "\<And>a b. cmp a b = 0 \<longleftrightarrow> a = b"
  shows "btree_get cmp bt key = map_of bt key"
  by (induction bt) (auto simp: eq)

lemma set_btree_insert:
  fixes cmp :: "'k::linorder \<Rightarrow> 'k \<Rightarrow> int"
  assumes lt: "\<And>a b. cmp a b < 0 \<longleftrightarrow> a < b" and eq: "\<And>a b. cmp a b = 0 \<longleftrightarrow> a = b"
  shows "btree_sorted cmp bt \<Longrightarrow>
         set (btree_insert cmp key data bt) = insert (key, data) {e \<in> set bt. fst e \<noteq> key}"
proof (induction bt)
  case Nil
  then show ?case by simp
next
  case (Cons e bt)
  obtain k v where e: "e = (k, v)" by (cases e)
  from Cons.prems have above: "\<forall>x \<in> set bt. k < fst x" and sorted: "btree_sorted cmp bt"
    by (simp_all add: e btree_sorted_Cons [of cmp, OF lt])
  show ?case
  proof (cases "key < k")
    case True
    with above show ?thesis by (auto simp: e lt eq)
  next
    case False
    show ?thesis
    proof (cases "key = k")
      case True
      with above show ?thesis by (auto simp: e lt eq)
    next
      case neq: False
      with False Cons.IH [OF sorted] show ?thesis by (auto simp: e lt eq)
    qed
  qed
qed

lemma btree_sorted_insert:
  fixes cmp :: "'k::linorder \<Rightarrow> 'k \<Rightarrow> int"
  assumes lt: "\<And>a b. cmp a b < 0 \<longleftrightarrow> a < b" and eq: "\<And>a b. cmp a b = 0 \<longleftrightarrow> a = b"
  shows "btree_sorted cmp bt \<Longrightarrow> btree_sorted cmp (btree_insert cmp key data bt)"
proof (induction bt)
  case Nil
  then show ?case by (simp add: btree_sorted_def)
next
  case (Cons e bt)
  obtain k v where e: "e = (k, v)" by (cases e)
  from Cons.prems have above: "\<forall>x \<in> set bt. k < fst x" and sorted: "btree_sorted cmp bt"
    by (simp_all add: e btree_sorted_Cons [of cmp, OF lt])
  have ins: "set (btree_insert cmp key data bt) = insert (key, data) {e \<in> set bt. fst e \<noteq> key}"
    by (rule set_btree_insert [of cmp, OF lt eq sorted])
  show ?case
    using above sorted Cons.IH [OF sorted]
    by (auto simp: e lt eq ins btree_sorted_Cons [of cmp, OF lt])
qed

lemma set_btree_remove:
  fixes cmp :: "'k::linorder \<Rightarrow> 'k \<Rightarrow> int"
  assumes lt: "\<And>a b. cmp a b < 0 \<longleftrightarrow> a < b" and eq: "\<And>a b. cmp a b = 0 \<longleftrightarrow> a = b"
  shows "btree_sorted cmp bt \<Longrightarrow> set (btree_remove cmp key bt) = {e \<in> set bt. fst e \<noteq> key}"
proof (induction bt)
  case Nil
  then show ?case by simp
next
  case (Cons e bt)
  obtain k v where e: "e = (k, v)" by (cases e)
  from Cons.prems have above: "\<forall>x \<in> set bt. k < fst x" and sorted: "btree_sorted cmp bt"
    by (simp_all add: e btree_sorted_Cons [of cmp, OF lt])
  show ?case
    using above Cons.IH [OF sorted] by (auto simp: e eq)
qed

lemma btree_sorted_remove:
  fixes cmp :: "'k::linorder \<Rightarrow> 'k \<Rightarrow> int"
  assumes lt: "\<And>a b. cmp a b < 0 \<longleftrightarrow> a < b" and eq: "\<And>a b. cmp a b = 0 \<longleftrightarrow> a = b"
  shows "btree_sorted cmp bt \<Longrightarrow> btree_sorted cmp (btree_remove cmp key bt)"
proof (induction bt)
  case Nil
  then show ?case by simp
next
  case (Cons e bt)
  obtain k v where e: "e = (k, v)" by (cases e)
  from Cons.prems have above: "\<forall>x \<in> set bt. k < fst x" and sorted: "btree_sorted cmp bt"
    by (simp_all add: e btree_sorted_Cons [of cmp, OF lt])
  show ?case
    using above sorted Cons.IH [OF sorted]
    by (auto simp: e eq btree_sorted_Cons [of cmp, OF lt] set_btree_remove [of cmp, OF lt eq sorted])
qed

lemma btree_insert_remove:
  fixes cmp :: "'k::linorder \<Rightarrow> 'k \<Rightarrow> int"
  assumes lt: "\<And>a b. cmp a b < 0 \<longleftrightarrow> a < b" and eq: "\<And>a b. cmp a b = 0 \<longleftrightarrow> a = b"
  shows "btree_sorted cmp bt \<Longrightarrow> (key, data) \<in> set bt \<Longrightarrow>
         btree_insert cmp key data (btree_remove cmp key bt) = bt"
proof (induction bt)
  case Nil
  then show ?case by simp
next
  case (Cons e bt)
  obtain k v where e: "e = (k, v)" by (cases e)
  from Cons.prems have above: "\<forall>x \<in> set bt. k < fst x" and sorted: "btree_sorted cmp bt"
    by (simp_all add: e btree_sorted_Cons [of cmp, OF lt])
  show ?case
  proof (cases "k = key")
    case True
    with above Cons.prems(2) have "v = data" by (auto simp: e)
    with True above show ?thesis
      by (cases bt) (auto simp: e lt eq)
  next
    case False
    with Cons.prems(2) have mem: "(key, data) \<in> set bt" by (simp add: e)
    with above have "k < key" by auto
    with False Cons.IH [OF sorted mem] show ?thesis
      by (auto simp: e lt eq)
  qed
qed

lemma btree_insert_same:
  fixes cmp :: "'k::linorder \<Rightarrow> 'k \<Rightarrow> int"
  assumes lt: "\<And>a b. cmp a b < 0 \<longleftrightarrow> a < b" and eq: "\<And>a b. cmp a b = 0 \<longleftrightarrow> a = b"
  shows "btree_sorted cmp bt \<Longrightarrow> (key, data) \<in> set bt \<Longrightarrow> btree_insert cmp key data bt = bt"
proof (induction bt)
  case Nil
  then show ?case by simp
next
  case (Cons e bt)
  obtain k v where e: "e = (k, v)" by (cases e)
  from Cons.prems have above: "\<forall>x \<in> set bt. k < fst x" and sorted: "btree_sorted cmp bt"
    by (simp_all add: e btree_sorted_Cons [of cmp, OF lt])
  show ?case
  proof (cases "k = key")
    case True
    with above Cons.prems(2) have "v = data" by (auto simp: e)
    with True show ?thesis by (simp add: e lt eq)
  next
    case False
    with Cons.prems(2) have mem: "(key, data) \<in> set bt" by (simp add: e)
    with above have "k < key" by auto
    with False Cons.IH [OF sorted mem] show ?thesis
      by (auto simp: e lt eq)
  qed
qed

section \<open>Predecessor search\<close>

lemma btree_sorted_le_Cons:
  fixes cmp :: "'k::linorder \<Rightarrow> 'k \<Rightarrow> int"
  assumes lt: "\<And>a b. cmp a b < 0 \<longleftrightarrow> a < b"
  shows "btree_sorted cmp (e # bt) \<Longrightarrow> x \<in> set (e # bt) \<Longrightarrow> fst e \<le> fst x"
  by (auto simp: btree_sorted_Cons [of cmp, OF lt] order_le_less)

lemma btree_find_le_None:
  fixes cmp :: "'k::linorder \<Rightarrow> 'k \<Rightarrow> int"
  assumes lt: "\<And>a b. cmp a b < 0 \<longleftrightarrow> a < b" and le: "\<And>a b. cmp a b \<le> 0 \<longleftrightarrow> a \<le> b"
  shows "btree_sorted cmp bt \<Longrightarrow>
         btree_find_le cmp bt key = None \<longleftrightarrow> (\<forall>e \<in> set bt. key < fst e)"
proof (induction bt)
  case Nil
  then show ?case by simp
next
  case (Cons e bt)
  obtain k v where e: "e = (k, v)" by (cases e)
  from Cons.prems have above: "\<forall>x \<in> set bt. k < fst x"
    by (simp add: e btree_sorted_Cons [of cmp, OF lt])
  then show ?case
    by (auto simp: e le not_le split: option.splits)
qed

lemma btree_find_le_Some:
  fixes cmp :: "'k::linorder \<Rightarrow> 'k \<Rightarrow> int"
  assumes lt: "\<And>a b. cmp a b < 0 \<longleftrightarrow> a < b" and le: "\<And>a b. cmp a b \<le> 0 \<longleftrightarrow> a \<le> b"
  shows "btree_sorted cmp bt \<Longrightarrow> btree_find_le cmp bt key = Some i \<Longrightarrow>
         i < length bt \<and> fst (bt ! i) \<le> key \<and> (\<forall>e \<in> set bt. fst e \<le> key \<longrightarrow> fst e \<le> fst (bt ! i))"
proof (induction bt arbitrary: i)
  case Nil
  then show ?case by simp
next
  case (Cons e bt)
  obtain k v where e: "e = (k, v)" by (cases e)
  from Cons.prems(1) have above: "\<forall>x \<in> set bt. k < fst x" and sorted: "btree_sorted cmp bt"
    by (simp_all add: e btree_sorted_Cons [of cmp, OF lt])
  from Cons.prems(2) have kle: "k \<le> key"
    by (simp add: e le split: if_splits)
  show ?case
  proof (cases "btree_find_le cmp bt key")
    case None
    with Cons.prems(2) kle have i: "i = 0" by (simp add: e le)
    from None have "\<forall>x \<in> set bt. key < fst x"
      by (simp add: btree_find_le_None [of cmp, OF lt le sorted])
    with i kle show ?thesis by (auto simp: e)
  next
    case (Some j)
    with Cons.prems(2) kle have i: "i = Suc j" by (simp add: e le)
    from Cons.IH [OF sorted Some]
    have j: "j < length bt" "fst (bt ! j) \<le> key"
      "\<forall>x \<in> set bt. fst x \<le> key \<longrightarrow> fst x \<le> fst (bt ! j)"
      by auto
    from j(1) have "bt ! j \<in> set bt" by simp
    with above have "k < fst (bt ! j)" by blast
    with i j show ?thesis by (auto simp: e)
  qed
qed

lemma name_less_probe: "length n < m \<Longrightarrow> n < replicate m (CHR 0xFF)"
proof (induction n arbitrary: m)
  case Nil
  then show ?case by (cases m) simp_all
next
  case (Cons c n)
  then obtain m' where m: "m = Suc m'" by (cases m) auto
  have c: "c < CHR 0xFF \<or> c = CHR 0xFF"
  proof (cases "(of_char c :: nat) = 255")
    case True
    have "(of_char (CHR 0xFF) :: nat) = 255" by simp
    with True have "(of_char c :: nat) = of_char (CHR 0xFF)" by (simp only:)
    then have "c = CHR 0xFF" by (simp only: of_char_eq_iff)
    then show ?thesis by (rule disjI2)
  next
    case False
    moreover have "(of_char c :: nat) < 256" by (rule nat_of_char_less_256)
    ultimately have "(of_char c :: nat) < 255" by linarith
    then show ?thesis by (simp add: less_char_def)
  qed
  show ?case
    using c Cons.IH [of m'] Cons.prems by (auto simp: m)
qed

section \<open>Key construction and the two mutations\<close>

lemma key_len_short:
  assumes "length text < 64"
  shows "(let len = (of_nat (strlen text) :: 32 word); len = (if 64 \<le> len then 64 - 1 else len)
          in take (unat len) text) = text"
proof -
  have u: "unat (of_nat (length text) :: 32 word) = length text"
    using assms by (simp add: unat_of_nat)
  have "\<not> (64 :: 32 word) \<le> of_nat (length text)"
    using assms u by (simp add: word_le_nat_alt)
  then show ?thesis by (simp add: strlen_def Let_def u)
qed

lemma key_len_long:
  assumes "64 \<le> length text" and "length text < 2 ^ 32"
  shows "(let len = (of_nat (strlen text) :: 32 word); len = (if 64 \<le> len then 64 - 1 else len)
          in take (unat len) text) = take 63 text"
proof -
  have u: "unat (of_nat (length text) :: 32 word) = length text"
    using assms by (simp add: unat_of_nat)
  have "(64 :: 32 word) \<le> of_nat (length text)"
    using assms u by (simp add: word_le_nat_alt)
  then show ?thesis by (simp add: strlen_def Let_def)
qed

lemma key_len_bound:
  "length (let len = (of_nat (strlen text) :: 32 word); len = (if 64 \<le> len then 64 - 1 else len)
           in take (unat len) text) < 64"
proof (cases "(64 :: 32 word) \<le> of_nat (strlen text)")
  case True
  then show ?thesis by (simp add: Let_def)
next
  case False
  then have "unat (of_nat (strlen text) :: 32 word) < 64"
    by (simp add: word_le_nat_alt not_le)
  with False show ?thesis by (simp add: Let_def)
qed

lemma sym_key_init_length: "length (sym_key_init text) < 64"
  unfolding sym_key_init_def by (rule key_len_bound)

lemma sym_key_init_short: "length text < 64 \<Longrightarrow> sym_key_init text = text"
  unfolding sym_key_init_def by (rule key_len_short)

lemma sym_key_init_long:
  "64 \<le> length text \<Longrightarrow> length text < 2 ^ 32 \<Longrightarrow> sym_key_init text = take 63 text"
  unfolding sym_key_init_def by (rule key_len_long)

lemma sym_key_init_idem: "sym_key_init (sym_key_init text) = sym_key_init text"
  by (rule sym_key_init_short) (rule sym_key_init_length)

lemma addr_key_init_eq: "addr_key_init a text = (a, sym_key_init text)"
  by (simp add: addr_key_init_def sym_key_init_def Let_def)

lemma btree_remove_absent:
  "btree_get cmp bt key = None \<Longrightarrow> btree_remove cmp key bt = bt"
  by (induction bt) (auto split: if_splits)

lemma snd_btree_delete: "snd (btree_delete cmp bt key) = btree_remove cmp key bt"
  by (simp add: btree_delete_def btree_remove_absent split: option.splits)

lemma fst_btree_delete:
  "fst (btree_delete cmp bt key) = (if btree_get cmp bt key = None then 1 else 0)"
  by (simp add: btree_delete_def split: option.splits)

lemma stab_set_eq:
  "stab_set ok_addr ok_sym st n v =
     (if \<not> ok_addr then (-1, \<lparr>sym = sym st, addr = addr_without st (sym_key_init n)\<rparr>)
      else if \<not> ok_sym then
        (-1, \<lparr>sym = sym st,
              addr = btree_insert addr_key_compare (v, sym_key_init n) ()
                       (addr_without st (sym_key_init n))\<rparr>)
      else (0, \<lparr>sym = btree_insert sym_key_compare (sym_key_init n) v (sym st),
                addr = btree_insert addr_key_compare (v, sym_key_init n) ()
                         (addr_without st (sym_key_init n))\<rparr>))"
  by (simp add: stab_set_def Let_def addr_key_init_eq sym_key_init_idem snd_btree_delete
      btree_put_def addr_without_def split: option.splits)

lemma stab_del_eq:
  "stab_del st n =
     (case btree_get sym_key_compare (sym st) (sym_key_init n) of
        None \<Rightarrow> (-1, st)
      | Some a \<Rightarrow>
          (0, \<lparr>sym = btree_remove sym_key_compare (sym_key_init n) (sym st),
                addr = btree_remove addr_key_compare (a, sym_key_init n) (addr st)\<rparr>))"
  by (simp add: stab_del_def Let_def addr_key_init_eq snd_btree_delete split: option.splits)

section \<open>The representation invariant is preserved\<close>

lemmas sym_ord = sym_key_compare_less sym_key_compare_eq
lemmas addr_ord = addr_key_compare_less addr_key_compare_eq

lemma set_addr_without:
  assumes "stab_wf st"
  shows "set (addr_without st k) =
           (case btree_get sym_key_compare (sym st) k of
              Some old \<Rightarrow> {e \<in> set (addr st). fst e \<noteq> (old, k)}
            | None \<Rightarrow> set (addr st))"
  using assms
  by (simp add: addr_without_def stab_wf_def set_btree_remove [of addr_key_compare, OF addr_ord]
      split: option.splits)

lemma sorted_addr_without:
  assumes "stab_wf st"
  shows "btree_sorted addr_key_compare (addr_without st k)"
  using assms
  by (simp add: addr_without_def stab_wf_def btree_sorted_remove [of addr_key_compare, OF addr_ord]
      split: option.splits)

lemma stab_wf_new: "stab_wf stab_new"
  by (simp add: stab_wf_def stab_new_def btree_sorted_def)

lemma stab_wf_clear: "stab_wf (stab_clear st)"
  by (simp add: stab_wf_def stab_clear_def btree_clear_def btree_sorted_def)

lemma stab_wf_set:
  assumes wf: "stab_wf st"
  shows "stab_wf (snd (stab_set ok_addr ok_sym st n v))"
proof -
  let ?k = "sym_key_init n"
  have len: "length ?k < 64" by (rule sym_key_init_length)
  from wf have s1: "btree_sorted sym_key_compare (sym st)"
    and n1: "\<forall>e \<in> set (sym st). length (fst e) < 64"
    and n2: "\<forall>e \<in> set (addr st). length (snd (fst e)) < 64"
    by (simp_all add: stab_wf_def list_all_iff)
  have s2: "btree_sorted addr_key_compare (addr_without st ?k)"
    by (rule sorted_addr_without [OF wf])
  have n3: "\<forall>e \<in> set (addr_without st ?k). length (snd (fst e)) < 64"
    using n2 by (auto simp: set_addr_without [OF wf] split: option.splits)
  have s3: "btree_sorted addr_key_compare
              (btree_insert addr_key_compare (v, ?k) () (addr_without st ?k))"
    by (rule btree_sorted_insert [of addr_key_compare, OF addr_ord s2])
  have n4: "\<forall>e \<in> set (btree_insert addr_key_compare (v, ?k) () (addr_without st ?k)).
              length (snd (fst e)) < 64"
    using n3 len by (auto simp: set_btree_insert [of addr_key_compare, OF addr_ord s2])
  have s4: "btree_sorted sym_key_compare (btree_insert sym_key_compare ?k v (sym st))"
    by (rule btree_sorted_insert [of sym_key_compare, OF sym_ord s1])
  have n5: "\<forall>e \<in> set (btree_insert sym_key_compare ?k v (sym st)). length (fst e) < 64"
    using n1 len by (auto simp: set_btree_insert [of sym_key_compare, OF sym_ord s1])
  show ?thesis
    using s1 s2 s3 s4 n1 n3 n4 n5
    by (simp add: stab_set_eq stab_wf_def list_all_iff)
qed

lemma stab_wf_del:
  assumes wf: "stab_wf st"
  shows "stab_wf (snd (stab_del st n))"
proof (cases "btree_get sym_key_compare (sym st) (sym_key_init n)")
  case None
  with wf show ?thesis by (simp add: stab_del_eq)
next
  case (Some a)
  from wf have s1: "btree_sorted sym_key_compare (sym st)"
    and s2: "btree_sorted addr_key_compare (addr st)"
    and n1: "\<forall>e \<in> set (sym st). length (fst e) < 64"
    and n2: "\<forall>e \<in> set (addr st). length (snd (fst e)) < 64"
    by (simp_all add: stab_wf_def list_all_iff)
  show ?thesis
    using n1 n2
    by (simp add: stab_del_eq Some stab_wf_def list_all_iff
        btree_sorted_remove [of sym_key_compare, OF sym_ord s1]
        btree_sorted_remove [of addr_key_compare, OF addr_ord s2]
        set_btree_remove [of sym_key_compare, OF sym_ord s1]
        set_btree_remove [of addr_key_compare, OF addr_ord s2])
qed

lemma stab_wf_apply: "stab_wf st \<Longrightarrow> stab_wf (stab_apply st op)"
  by (cases op) (simp_all add: stab_wf_set stab_wf_del stab_wf_clear)

section \<open>Cross-index consistency\<close>

lemma stab_wf_run: "stab_wf (run ops)"
proof -
  have "stab_wf (foldl stab_apply st ops)" if "stab_wf st" for st
    using that by (induction ops arbitrary: st) (simp_all add: stab_wf_apply)
  then show ?thesis by (simp add: run_def stab_wf_new)
qed

lemma sym_get_iff:
  assumes "stab_wf st"
  shows "btree_get sym_key_compare (sym st) n = Some a \<longleftrightarrow> (n, a) \<in> set (sym st)"
proof -
  from assms have "distinct (map fst (sym st))"
    by (simp add: stab_wf_def btree_sorted_distinct [of sym_key_compare, OF sym_key_compare_less])
  then show ?thesis
    by (simp add: btree_get_map_of [of sym_key_compare, OF sym_key_compare_eq])
qed

lemma sym_get_None_iff:
  "btree_get sym_key_compare (sym st) n = None \<longleftrightarrow> n \<notin> fst ` set (sym st)"
  by (simp add: btree_get_map_of [of sym_key_compare, OF sym_key_compare_eq] map_of_eq_None_iff)

lemma stab_consistent_iff:
  "stab_consistent st \<longleftrightarrow>
     stab_wf st \<and> (\<forall>a n. ((a, n), ()) \<in> set (addr st) \<longleftrightarrow> (n, a) \<in> set (sym st))"
  unfolding stab_consistent_def
  by (intro conj_cong refl) (force simp: set_eq_iff image_iff)

lemma stab_consistent_new: "stab_consistent stab_new"
  by (simp add: stab_consistent_def stab_wf_new) (simp add: stab_new_def)

lemma stab_consistent_clear: "stab_consistent (stab_clear st)"
  by (simp add: stab_consistent_def stab_wf_clear) (simp add: stab_clear_def btree_clear_def)

lemma stab_consistent_set:
  assumes c: "stab_consistent st"
  shows "stab_consistent (snd (stab_set True True st n v))"
proof -
  let ?k = "sym_key_init n"
  from c have wf: "stab_wf st"
    and inv: "\<And>a m. ((a, m), ()) \<in> set (addr st) \<longleftrightarrow> (m, a) \<in> set (sym st)"
    by (simp_all add: stab_consistent_iff)
  from wf have s1: "btree_sorted sym_key_compare (sym st)"
    by (simp add: stab_wf_def)
  have s2: "btree_sorted addr_key_compare (addr_without st ?k)"
    by (rule sorted_addr_without [OF wf])
  have uniq: "a = b" if "(m, a) \<in> set (sym st)" "(m, b) \<in> set (sym st)" for m a b
    using that sym_get_iff [OF wf] by (metis option.inject)
  have without: "((a, m), ()) \<in> set (addr_without st ?k) \<longleftrightarrow> (m, a) \<in> set (sym st) \<and> m \<noteq> ?k"
    for a m
  proof (cases "btree_get sym_key_compare (sym st) ?k")
    case None
    then have "?k \<notin> fst ` set (sym st)" by (simp add: sym_get_None_iff)
    then have "(m, a) \<in> set (sym st) \<Longrightarrow> m \<noteq> ?k" by force
    with None show ?thesis by (auto simp: set_addr_without [OF wf] inv)
  next
    case (Some old)
    then have old: "(?k, old) \<in> set (sym st)" by (simp add: sym_get_iff [OF wf])
    have "((a, m), ()) \<in> set (addr_without st ?k) \<longleftrightarrow>
          ((a, m), ()) \<in> set (addr st) \<and> (a, m) \<noteq> (old, ?k)"
      by (simp add: set_addr_without [OF wf] Some)
    also have "\<dots> \<longleftrightarrow> (m, a) \<in> set (sym st) \<and> (a, m) \<noteq> (old, ?k)"
      by (simp only: inv)
    also have "\<dots> \<longleftrightarrow> (m, a) \<in> set (sym st) \<and> m \<noteq> ?k"
      using uniq [of m a old] old by blast
    finally show ?thesis .
  qed
  have "((a, m), ()) \<in> set (btree_insert addr_key_compare (v, ?k) () (addr_without st ?k)) \<longleftrightarrow>
        (m, a) \<in> set (btree_insert sym_key_compare ?k v (sym st))" for a m
  proof -
    have "((a, m), ()) \<in> set (btree_insert addr_key_compare (v, ?k) () (addr_without st ?k)) \<longleftrightarrow>
          (a, m) = (v, ?k) \<or> ((a, m), ()) \<in> set (addr_without st ?k) \<and> (a, m) \<noteq> (v, ?k)"
      by (simp add: set_btree_insert [of addr_key_compare, OF addr_ord s2])
    also have "\<dots> \<longleftrightarrow> (m, a) = (?k, v) \<or> (m, a) \<in> set (sym st) \<and> m \<noteq> ?k"
      unfolding without by blast
    also have "\<dots> \<longleftrightarrow> (m, a) \<in> set (btree_insert sym_key_compare ?k v (sym st))"
      by (simp add: set_btree_insert [of sym_key_compare, OF sym_ord s1])
    finally show ?thesis .
  qed
  then show ?thesis
    using stab_wf_set [OF wf, of True True n v]
    by (simp add: stab_consistent_iff stab_set_eq)
qed

lemma stab_consistent_del:
  assumes c: "stab_consistent st"
  shows "stab_consistent (snd (stab_del st n))"
proof (cases "btree_get sym_key_compare (sym st) (sym_key_init n)")
  case None
  with c show ?thesis by (simp add: stab_del_eq)
next
  case (Some old)
  let ?k = "sym_key_init n"
  from c have wf: "stab_wf st"
    and inv: "\<And>a m. ((a, m), ()) \<in> set (addr st) \<longleftrightarrow> (m, a) \<in> set (sym st)"
    by (simp_all add: stab_consistent_iff)
  from wf have s1: "btree_sorted sym_key_compare (sym st)"
    and s2: "btree_sorted addr_key_compare (addr st)"
    by (simp_all add: stab_wf_def)
  from Some have old: "(?k, old) \<in> set (sym st)" by (simp add: sym_get_iff [OF wf])
  have uniq: "a = b" if "(m, a) \<in> set (sym st)" "(m, b) \<in> set (sym st)" for m a b
    using that sym_get_iff [OF wf] by (metis option.inject)
  have "((a, m), ()) \<in> set (btree_remove addr_key_compare (old, ?k) (addr st)) \<longleftrightarrow>
        (m, a) \<in> set (btree_remove sym_key_compare ?k (sym st))" for a m
  proof -
    have "((a, m), ()) \<in> set (btree_remove addr_key_compare (old, ?k) (addr st)) \<longleftrightarrow>
          ((a, m), ()) \<in> set (addr st) \<and> (a, m) \<noteq> (old, ?k)"
      by (simp add: set_btree_remove [of addr_key_compare, OF addr_ord s2])
    also have "\<dots> \<longleftrightarrow> (m, a) \<in> set (sym st) \<and> (a, m) \<noteq> (old, ?k)"
      by (simp only: inv)
    also have "\<dots> \<longleftrightarrow> (m, a) \<in> set (sym st) \<and> m \<noteq> ?k"
      using uniq [of m a old] old by blast
    also have "\<dots> \<longleftrightarrow> (m, a) \<in> set (btree_remove sym_key_compare ?k (sym st))"
      by (simp add: set_btree_remove [of sym_key_compare, OF sym_ord s1])
    finally show ?thesis .
  qed
  then show ?thesis
    using stab_wf_del [OF wf, of n]
    by (simp add: stab_consistent_iff stab_del_eq Some)
qed

lemma stab_consistent_apply: "stab_consistent st \<Longrightarrow> stab_consistent (stab_apply st op)"
  by (cases op) (simp_all add: stab_consistent_set stab_consistent_del stab_consistent_clear)

lemma stab_consistent_run: "stab_consistent (run ops)"
proof -
  have "stab_consistent (foldl stab_apply st ops)" if "stab_consistent st" for st
    using that by (induction ops arbitrary: st) (simp_all add: stab_consistent_apply)
  then show ?thesis by (simp add: run_def stab_consistent_new)
qed

lemma stab_set_succeeds: "fst (stab_set True True st n v) = 0"
  by (simp add: stab_set_eq)




section \<open>Setting a name\<close>

lemma stab_set_success:
  assumes "stab_set ok_addr ok_sym st n v = (0, st')"
  shows "st' = \<lparr>sym = btree_insert sym_key_compare (sym_key_init n) v (sym st),
               addr = btree_insert addr_key_compare (v, sym_key_init n) ()
                        (addr_without st (sym_key_init n))\<rparr>"
  using assms by (simp add: stab_set_eq split: if_splits)

lemma stab_set_stored:
  assumes wf: "stab_wf st" and set: "stab_set ok_addr ok_sym st n v = (0, st')"
  shows "stab_wf st'"
    and "(sym_key_init n, v) \<in> set (sym st')"
    and "((v, sym_key_init n), ()) \<in> set (addr st')"
    and "btree_get sym_key_compare (sym st') (sym_key_init n) = Some v"
    and "addr_without st' (sym_key_init n) =
           btree_remove addr_key_compare (v, sym_key_init n) (addr st')"
proof -
  let ?k = "sym_key_init n"
  note st' = stab_set_success [OF set]
  from wf have s1: "btree_sorted sym_key_compare (sym st)"
    by (simp add: stab_wf_def)
  have s2: "btree_sorted addr_key_compare (addr_without st ?k)"
    by (rule sorted_addr_without [OF wf])
  from stab_wf_set [OF wf, of ok_addr ok_sym n v] set show wf': "stab_wf st'" by simp
  show mem: "(?k, v) \<in> set (sym st')"
    by (simp add: st' set_btree_insert [of sym_key_compare, OF sym_ord s1])
  show "((v, ?k), ()) \<in> set (addr st')"
    by (simp add: st' set_btree_insert [of addr_key_compare, OF addr_ord s2])
  from mem show get: "btree_get sym_key_compare (sym st') ?k = Some v"
    by (simp add: sym_get_iff [OF wf'])
  then show "addr_without st' ?k = btree_remove addr_key_compare (v, ?k) (addr st')"
    by (simp add: addr_without_def)
qed

lemma stab_get_eq:
  "stab_get st n v =
     (case btree_get sym_key_compare (sym st) (sym_key_init n) of
        None \<Rightarrow> (-1, v) | Some a \<Rightarrow> (0, a))"
  by (simp add: stab_get_def)

lemma stab_set_twice:
  assumes wf: "stab_wf st"
    and set1: "stab_set ok_addr1 ok_sym1 st n a = (0, st1)"
    and set2: "stab_set ok_addr2 ok_sym2 st1 n a = (0, st2)"
  shows "st2 = st1"
proof -
  let ?k = "sym_key_init n"
  note stored = stab_set_stored [OF wf set1]
  from stored(1) have s1: "btree_sorted sym_key_compare (sym st1)"
    and s2: "btree_sorted addr_key_compare (addr st1)"
    by (simp_all add: stab_wf_def)
  have "btree_insert sym_key_compare ?k a (sym st1) = sym st1"
    by (rule btree_insert_same [of sym_key_compare, OF sym_ord s1 stored(2)])
  moreover have "btree_insert addr_key_compare (a, ?k) ()
                   (btree_remove addr_key_compare (a, ?k) (addr st1)) = addr st1"
    by (rule btree_insert_remove [of addr_key_compare, OF addr_ord s2 stored(3)])
  ultimately show ?thesis
    by (simp add: stab_set_success [OF set2] stored(5))
qed

lemma stab_set_overwrite:
  assumes wf: "stab_wf st"
    and set1: "stab_set ok_addr1 ok_sym1 st n a1 = (0, st1)"
    and set2: "stab_set ok_addr2 ok_sym2 st1 n a2 = (0, st2)"
    and neq: "a1 \<noteq> a2"
  shows "(a1, sym_key_init n) \<notin> fst ` set (addr st2)" and "(a1, n) \<notin> fst ` set (addr st2)"
proof -
  let ?k = "sym_key_init n"
  note stored = stab_set_stored [OF wf set1]
  from stored(1) have s2: "btree_sorted addr_key_compare (addr st1)"
    by (simp add: stab_wf_def)
  have s3: "btree_sorted addr_key_compare (btree_remove addr_key_compare (a1, ?k) (addr st1))"
    by (rule btree_sorted_remove [of addr_key_compare, OF addr_ord s2])
  have "set (addr st2) = insert ((a2, ?k), ())
          {e \<in> set (btree_remove addr_key_compare (a1, ?k) (addr st1)). fst e \<noteq> (a2, ?k)}"
    by (simp add: stab_set_success [OF set2] stored(5)
        set_btree_insert [of addr_key_compare, OF addr_ord s3])
  then have "set (addr st2) = insert ((a2, ?k), ())
          {e \<in> set (addr st1). fst e \<noteq> (a1, ?k) \<and> fst e \<noteq> (a2, ?k)}"
    by (simp add: set_btree_remove [of addr_key_compare, OF addr_ord s2])
  with neq show gone: "(a1, ?k) \<notin> fst ` set (addr st2)"
    by auto
  show "(a1, n) \<notin> fst ` set (addr st2)"
  proof (cases "length n < 64")
    case True
    with gone show ?thesis by (simp add: sym_key_init_short)
  next
    case False
    from stab_set_stored(1) [OF stored(1) set2]
    have "\<forall>e \<in> set (addr st2). length (snd (fst e)) < 64"
      by (simp add: stab_wf_def list_all_iff)
    with False show ?thesis by force
  qed
qed

section \<open>Round-trip, overwrite, idempotence and truncation\<close>

text \<open>
  Claim C3, as amended (round-trip with overwrite). After a successful set(n, a1),
  get(n) returns a1. After a further successful set(n, a2), get(n) returns a2 and,
  when a2 differs from a1, the address index no longer contains the entry (a1, n),
  neither under the stored (truncated) form of the name nor under the name as given.
\<close>

theorem set_get_overwrite:
  assumes wf: "stab_wf st" and set1: "stab_set ok_addr1 ok_sym1 st n a1 = (0, st1)"
  shows "stab_get st1 n v = (0, a1) \<and>
         (\<forall>ok_addr2 ok_sym2 a2 st2.
            stab_set ok_addr2 ok_sym2 st1 n a2 = (0, st2) \<longrightarrow>
              stab_get st2 n v = (0, a2) \<and>
              (a1 \<noteq> a2 \<longrightarrow> (a1, sym_key_init n) \<notin> fst ` set (addr st2) \<and>
                            (a1, n) \<notin> fst ` set (addr st2)))"
proof -
  note stored = stab_set_stored [OF wf set1]
  have "stab_get st1 n v = (0, a1)"
    by (simp add: stab_get_eq stored(4))
  moreover have "stab_get st2 n v = (0, a2) \<and>
      (a1 \<noteq> a2 \<longrightarrow> (a1, sym_key_init n) \<notin> fst ` set (addr st2) \<and> (a1, n) \<notin> fst ` set (addr st2))"
    if set2: "stab_set ok_addr2 ok_sym2 st1 n a2 = (0, st2)" for ok_addr2 ok_sym2 a2 st2
  proof -
    have "stab_get st2 n v = (0, a2)"
      by (simp add: stab_get_eq stab_set_stored(4) [OF stored(1) set2])
    with stab_set_overwrite [OF wf set1 set2] show ?thesis by blast
  qed
  ultimately show ?thesis by blast
qed

theorem set_get_overwrite_witness:
  "stab_wf stab_new \<and> stab_set True True stab_new ''foo'' 0x1000 = (0, table_foo) \<and>
   stab_get table_foo ''foo'' 0 = (0, 0x1000)"
proof -
  have wf: "stab_wf stab_new" by (rule stab_wf_new)
  have set1: "stab_set True True stab_new ''foo'' 0x1000 = (0, table_foo)" by code_simp
  from set_get_overwrite [OF wf set1, of 0] wf set1 show ?thesis by blast
qed

text \<open>
  Claim C3 as stated also covers a1 = a2. There the second set re-inserts the entry it
  has just removed, so the address index still contains (a1, n).
\<close>

theorem set_same_address_counterexample:
  "stab_set True True stab_new ''foo'' 0x1000 = (0, table_foo) \<and>
   stab_set True True table_foo ''foo'' 0x1000 = (0, table_foo) \<and>
   stab_get table_foo ''foo'' 0 = (0, 0x1000) \<and>
   (0x1000, ''foo'') \<in> fst ` set (addr table_foo)"
  by code_simp

text \<open>
  Claim C10 (set is idempotent). A successful set(n, a) performed a second time on the
  table the first one left returns that same table, both indexes unchanged, although
  the second call does delete the address entry (a, n) (the delete finds it and the
  index is without it until it is inserted again).
\<close>

theorem set_idempotent:
  assumes wf: "stab_wf st"
    and set1: "stab_set ok_addr1 ok_sym1 st n a = (0, st1)"
    and set2: "stab_set ok_addr2 ok_sym2 st1 n a = (0, st2)"
  shows "st2 = st1 \<and>
         fst (btree_delete addr_key_compare (addr st1) (addr_key_init a (sym_key_init n))) = 0 \<and>
         (a, sym_key_init n) \<notin>
           fst ` set (snd (btree_delete addr_key_compare (addr st1) (addr_key_init a (sym_key_init n))))"
proof -
  let ?k = "sym_key_init n"
  note stored = stab_set_stored [OF wf set1]
  from stored(1) have s2: "btree_sorted addr_key_compare (addr st1)"
    by (simp add: stab_wf_def)
  from stored(3) have "map_of (addr st1) (a, ?k) = Some ()"
    using btree_sorted_distinct [of addr_key_compare, OF addr_key_compare_less s2] by simp
  then have "fst (btree_delete addr_key_compare (addr st1) (addr_key_init a ?k)) = 0"
    by (simp add: fst_btree_delete addr_key_init_eq sym_key_init_idem
        btree_get_map_of [of addr_key_compare, OF addr_key_compare_eq])
  moreover have "(a, ?k) \<notin>
      fst ` set (snd (btree_delete addr_key_compare (addr st1) (addr_key_init a ?k)))"
    by (auto simp: snd_btree_delete addr_key_init_eq sym_key_init_idem
        set_btree_remove [of addr_key_compare, OF addr_ord s2])
  moreover have "st2 = st1" by (rule stab_set_twice [OF wf set1 set2])
  ultimately show ?thesis by blast
qed

theorem set_idempotent_witness:
  "stab_wf stab_new \<and> stab_set True True stab_new ''foo'' 0x1000 = (0, table_foo) \<and>
   stab_set True True table_foo ''foo'' 0x1000 = (0, table_foo) \<and>
   fst (btree_delete addr_key_compare (addr table_foo)
          (addr_key_init 0x1000 (sym_key_init ''foo''))) = 0"
proof -
  have wf: "stab_wf stab_new" by (rule stab_wf_new)
  have set1: "stab_set True True stab_new ''foo'' 0x1000 = (0, table_foo)" by code_simp
  have set2: "stab_set True True table_foo ''foo'' 0x1000 = (0, table_foo)" by code_simp
  from set_idempotent [OF wf set1 set2] wf set1 set2 show ?thesis by blast
qed


text \<open>
  Truncation of names that fit an int. For a name of more than 63 bytes and of fewer
  than \<open>2^32\<close> bytes, set reports no error and stores the first 63 bytes of the name
  in both indexes: get with the 63-byte form succeeds and returns the address, the
  untruncated name is a key of neither index, and get with the untruncated name
  reaches the same, truncated, key.
\<close>

lemma set_truncates_name_below_4G:
  assumes wf: "stab_wf st" and long: "63 < length n" and fits: "length n < 2 ^ 32"
  shows "fst (stab_set True True st n a) = 0 \<and>
         stab_get (snd (stab_set True True st n a)) (take 63 n) v = (0, a) \<and>
         (take 63 n, a) \<in> set (sym (snd (stab_set True True st n a))) \<and>
         (a, take 63 n) \<in> fst ` set (addr (snd (stab_set True True st n a))) \<and>
         n \<notin> fst ` set (sym (snd (stab_set True True st n a))) \<and>
         n \<notin> snd ` fst ` set (addr (snd (stab_set True True st n a))) \<and>
         stab_get (snd (stab_set True True st n a)) n v = (0, a)"
proof -
  define st' where "st' = snd (stab_set True True st n a)"
  have set: "stab_set True True st n a = (0, st')"
    by (simp add: st'_def stab_set_eq)
  from long fits have k: "sym_key_init n = take 63 n"
    by (simp add: sym_key_init_long)
  from long have kk: "sym_key_init (take 63 n) = take 63 n"
    by (simp add: sym_key_init_short)
  note stored = stab_set_stored [OF wf set]
  from stored(1) have n1: "\<forall>e \<in> set (sym st'). length (fst e) < 64"
    and n2: "\<forall>e \<in> set (addr st'). length (snd (fst e)) < 64"
    by (simp_all add: stab_wf_def list_all_iff)
  have "n \<notin> fst ` set (sym st')"
    using n1 long by force
  moreover have "n \<notin> snd ` fst ` set (addr st')"
    using n2 long by force
  moreover have "(a, take 63 n) \<in> fst ` set (addr st')"
    using stored(3) by (force simp: k)
  moreover have "stab_get st' (take 63 n) v = (0, a)" "stab_get st' n v = (0, a)"
    using stored(4) by (simp_all add: stab_get_eq k kk)
  moreover have "(take 63 n, a) \<in> set (sym st')"
    using stored(2) by (simp add: k)
  moreover have "fst (stab_set True True st n a) = 0"
    by (simp add: stab_set_eq)
  ultimately have "fst (stab_set True True st n a) = 0 \<and>
         stab_get st' (take 63 n) v = (0, a) \<and>
         (take 63 n, a) \<in> set (sym st') \<and>
         (a, take 63 n) \<in> fst ` set (addr st') \<and>
         n \<notin> fst ` set (sym st') \<and>
         n \<notin> snd ` fst ` set (addr st') \<and>
         stab_get st' n v = (0, a)"
    by blast
  then show ?thesis unfolding st'_def .
qed

text \<open>The 63-byte form is the only key that reaches the entry: one byte fewer misses it.\<close>

lemma long_name_get_example:
  "stab_get (snd (stab_set True True stab_new long_name 0x1000)) (replicate 63 (CHR ''x'')) 0
     = (0, 0x1000) \<and>
   stab_get (snd (stab_set True True stab_new long_name 0x1000)) (replicate 62 (CHR ''x'')) 0
     = (-1, 0)"
  by code_simp

text \<open>
  The length of the name is kept in an int: of a name of \<open>2^32 + 5\<close> bytes the code
  sees the length 5.
\<close>

lemma sym_key_init_huge_name: "sym_key_init huge_name = ''xxxxx''"
proof -
  have len: "strlen huge_name = 4294967301"
    by (simp add: strlen_def huge_name_def)
  have w: "(of_nat (4294967301 :: nat) :: 32 word) = 5"
    by simp
  have "take 5 huge_name = replicate 5 (CHR ''x'')"
    by (simp add: huge_name_def)
  also have "\<dots> = ''xxxxx''"
    by (simp add: numeral_eq_Suc)
  finally have t: "take 5 huge_name = ''xxxxx''" .
  show ?thesis
    by (simp add: sym_key_init_def len w Let_def t)
qed

text \<open>
  Claim C6 (truncation) at a name of \<open>2^32 + 5\<close> bytes. The claim asks for the first 63
  bytes of every name longer than 63 bytes to be stored and to be retrievable. Here
  \<open>sym_key_init\<close> keeps five bytes: set succeeds and stores the five-byte key in both
  indexes, get with the 63-byte truncated form reports not-found, and get with the
  five-byte form returns the address.
\<close>

theorem set_huge_name_keeps_five_bytes:
  "63 < length huge_name \<and>
   sym_key_init huge_name = ''xxxxx'' \<and>
   stab_set True True stab_new huge_name 0x1000
     = (0, \<lparr>sym = [(''xxxxx'', 0x1000)], addr = [((0x1000, ''xxxxx''), ())]\<rparr>) \<and>
   take 63 huge_name = replicate 63 (CHR ''x'') \<and>
   stab_get \<lparr>sym = [(''xxxxx'', 0x1000)], addr = [((0x1000, ''xxxxx''), ())]\<rparr>
     (replicate 63 (CHR ''x'')) 0 = (-1, 0) \<and>
   stab_get \<lparr>sym = [(''xxxxx'', 0x1000)], addr = [((0x1000, ''xxxxx''), ())]\<rparr>
     ''xxxxx'' 0 = (0, 0x1000)"
proof -
  have 1: "63 < length huge_name" by (simp add: huge_name_def)
  have 2: "stab_set True True stab_new huge_name 0x1000
     = (0, \<lparr>sym = [(''xxxxx'', 0x1000)], addr = [((0x1000, ''xxxxx''), ())]\<rparr>)"
    by (simp add: stab_set_eq sym_key_init_huge_name stab_new_def addr_without_def)
  have 3: "take 63 huge_name = replicate 63 (CHR ''x'')" by (simp add: huge_name_def)
  have 4: "stab_get \<lparr>sym = [(''xxxxx'', 0x1000)], addr = [((0x1000, ''xxxxx''), ())]\<rparr>
     (replicate 63 (CHR ''x'')) 0 = (-1, 0) \<and>
   stab_get \<lparr>sym = [(''xxxxx'', 0x1000)], addr = [((0x1000, ''xxxxx''), ())]\<rparr>
     ''xxxxx'' 0 = (0, 0x1000)"
    by code_simp
  from 1 sym_key_init_huge_name 2 3 4 show ?thesis by blast
qed

section \<open>Nearest-address search\<close>

lemma addr_key_le_probe:
  fixes a q :: address_t
  assumes "length n < 64"
  shows "(a, n) \<le> (q, replicate 64 (CHR 0xFF)) \<longleftrightarrow> a \<le> q"
  using name_less_probe [OF assms] by auto

lemma stab_nearest_eq:
  "stab_nearest st q ret_name max_len ret_offset =
     (case btree_find_le addr_key_compare (addr st) (q, replicate 64 (CHR 0xFF)) of
        None \<Rightarrow> Some (-1, ret_name, ret_offset)
      | Some i \<Rightarrow>
          (if max_len \<le> 0 then None
           else Some (0, take (nat (max_len - 1)) (snd (fst (addr st ! i))),
                      q - fst (fst (addr st ! i)))))"
  by (simp add: stab_nearest_def btree_select_def Let_def split: option.splits prod.splits)

lemma stab_nearest_none:
  assumes wf: "stab_wf st"
  shows "btree_find_le addr_key_compare (addr st) (q, replicate 64 (CHR 0xFF)) = None \<longleftrightarrow>
         (\<forall>k \<in> fst ` set (addr st). q < fst k)"
proof -
  from wf have s: "btree_sorted addr_key_compare (addr st)"
    and len: "\<forall>e \<in> set (addr st). length (snd (fst e)) < 64"
    by (simp_all add: stab_wf_def list_all_iff)
  have "(q, replicate 64 (CHR 0xFF)) < fst e \<longleftrightarrow> q < fst (fst e)" if "e \<in> set (addr st)" for e
  proof -
    from that len have "length (snd (fst e)) < 64" by blast
    from addr_key_le_probe [OF this, of "fst (fst e)" q] show ?thesis
      by (simp add: not_le [symmetric])
  qed
  then show ?thesis
    by (simp add: btree_find_le_None [of addr_key_compare, OF addr_key_compare_less addr_key_compare_le s])
qed

lemma stab_nearest_some:
  assumes wf: "stab_wf st"
    and found: "btree_find_le addr_key_compare (addr st) (q, replicate 64 (CHR 0xFF)) = Some i"
  shows "i < length (addr st)"
    and "fst (fst (addr st ! i)) \<le> q"
    and "\<forall>k \<in> fst ` set (addr st). fst k \<le> q \<longrightarrow> k \<le> fst (addr st ! i)"
proof -
  from wf have s: "btree_sorted addr_key_compare (addr st)"
    and len: "\<forall>e \<in> set (addr st). length (snd (fst e)) < 64"
    by (simp_all add: stab_wf_def list_all_iff)
  note r = btree_find_le_Some [of addr_key_compare, OF addr_key_compare_less addr_key_compare_le s found]
  from r show i: "i < length (addr st)" by simp
  then have mem: "addr st ! i \<in> set (addr st)" by simp
  with len have "length (snd (fst (addr st ! i))) < 64" by blast
  from addr_key_le_probe [OF this, of "fst (fst (addr st ! i))" q] r
  show "fst (fst (addr st ! i)) \<le> q" by simp
  show "\<forall>k \<in> fst ` set (addr st). fst k \<le> q \<longrightarrow> k \<le> fst (addr st ! i)"
  proof (intro ballI impI)
    fix k assume k: "k \<in> fst ` set (addr st)" and le: "fst k \<le> q"
    then obtain e where e: "e \<in> set (addr st)" "k = fst e" by blast
    with len have "length (snd k) < 64" by blast
    from addr_key_le_probe [OF this, of "fst k" q] le
    have "k \<le> (q, replicate 64 (CHR 0xFF))" by simp
    with r e show "k \<le> fst (addr st ! i)" by blast
  qed
qed

section \<open>Results of nearest and the outputs of failed queries\<close>

lemma stab_wf_table_alias: "stab_wf table_alias"
  by code_simp

text \<open>The example table is the one three calls of set leave.\<close>

lemma table_alias_reached:
  "run [Op_set ''c'' 0x300, Op_set ''a'' 0x100, Op_set ''b'' 0x100] = table_alias"
  by code_simp

lemma stab_nearest_found:
  assumes wf: "stab_wf st" and buf: "0 < max_len"
    and stored: "k0 \<in> fst ` set (addr st)" and below: "fst k0 \<le> q"
  shows "\<exists>k \<in> fst ` set (addr st). fst k \<le> q \<and>
           (\<forall>k' \<in> fst ` set (addr st). fst k' \<le> q \<longrightarrow> k' \<le> k) \<and>
           stab_nearest st q ret_name max_len ret_offset =
             Some (0, take (nat (max_len - 1)) (snd k), q - fst k)"
proof (cases "btree_find_le addr_key_compare (addr st) (q, replicate 64 (CHR 0xFF))")
  case None
  with stored below show ?thesis
    by (auto simp: stab_nearest_none [OF wf])
next
  case (Some i)
  note r = stab_nearest_some [OF wf Some]
  from r(1) have "fst (addr st ! i) \<in> fst ` set (addr st)" by simp
  moreover have "stab_nearest st q ret_name max_len ret_offset =
      Some (0, take (nat (max_len - 1)) (snd (fst (addr st ! i))), q - fst (fst (addr st ! i)))"
    using buf by (simp add: stab_nearest_eq Some)
  ultimately show ?thesis using r(2,3) by blast
qed

text \<open>
  Claim C2, as amended (predecessor search). On a table that stores at least one
  address not above the query address q, nearest(q) with a buffer of max_len > 0 bytes
  succeeds; the entry (a, n) it resolves to has the greatest stored address not above
  q, its name is the last one in byte order among the names stored at a, the offset is
  q - a, and the name returned is the first max_len - 1 bytes of n: the whole name
  whenever max_len is at least 64.
\<close>

theorem nearest_predecessor:
  assumes wf: "stab_wf st" and buf: "0 < max_len"
    and stored: "k0 \<in> fst ` set (addr st)" and below: "fst k0 \<le> q"
  shows "\<exists>a n. (a, n) \<in> fst ` set (addr st) \<and> a \<le> q \<and>
           (\<forall>k \<in> fst ` set (addr st). fst k \<le> q \<longrightarrow> fst k \<le> a) \<and>
           (\<forall>k \<in> fst ` set (addr st). fst k = a \<longrightarrow> strcmp (snd k) n \<le> 0) \<and>
           stab_nearest st q ret_name max_len ret_offset =
             Some (0, take (nat (max_len - 1)) n, q - a) \<and>
           (64 \<le> max_len \<longrightarrow> take (nat (max_len - 1)) n = n)"
proof -
  from stab_nearest_found [OF wf buf stored below, of ret_name ret_offset]
  obtain k where k: "k \<in> fst ` set (addr st)" "fst k \<le> q"
    and greatest: "\<forall>k' \<in> fst ` set (addr st). fst k' \<le> q \<longrightarrow> k' \<le> k"
    and res: "stab_nearest st q ret_name max_len ret_offset =
                Some (0, take (nat (max_len - 1)) (snd k), q - fst k)"
    by blast
  obtain a n where an: "k = (a, n)" by (cases k)
  from wf k(1) have len: "length n < 64"
    by (auto simp: stab_wf_def list_all_iff an)
  have "fst k' \<le> a" if "k' \<in> fst ` set (addr st)" "fst k' \<le> q" for k'
  proof -
    from greatest that have "k' \<le> (a, n)" unfolding an by blast
    then show ?thesis by (cases k') auto
  qed
  moreover have "strcmp (snd k') n \<le> 0" if "k' \<in> fst ` set (addr st)" "fst k' = a" for k'
  proof -
    from k(2) that(2) have "fst k' \<le> q" by (simp add: an)
    with greatest that(1) have "k' \<le> (a, n)" unfolding an by blast
    with that(2) have "snd k' \<le> n" by (cases k') auto
    then show ?thesis by (simp add: strcmp_le)
  qed
  moreover from len have "64 \<le> max_len \<longrightarrow> take (nat (max_len - 1)) n = n"
    by simp
  ultimately show ?thesis
    using k res unfolding an by (intro exI [of _ a] exI [of _ n]) simp
qed

theorem nearest_predecessor_witness:
  "stab_wf table_alias \<and> (0::int) < 64 \<and> (0x100, ''a'') \<in> fst ` set (addr table_alias) \<and>
   fst (0x100 :: address_t, ''a'') \<le> 0x105 \<and>
   (\<exists>a n. (a, n) \<in> fst ` set (addr table_alias) \<and>
      stab_nearest table_alias 0x105 [] 64 0 = Some (0, take (nat (64 - 1)) n, 0x105 - a))"
proof -
  have wf: "stab_wf table_alias" by (rule stab_wf_table_alias)
  have buf: "(0::int) < 64" by simp
  have stored: "(0x100, ''a'') \<in> fst ` set (addr table_alias)" by code_simp
  have below: "fst (0x100 :: address_t, ''a'') \<le> 0x105" by simp
  from nearest_predecessor [OF wf buf stored below, of "[]" 0] wf buf stored below
  show ?thesis by blast
qed

text \<open>
The aliasing example of the spec: of the names a and b at one address, b is returned.
\<close>

lemma nearest_alias_example:
  "stab_nearest table_alias 0x105 [] 64 0 = Some (0, ''b'', 5) \<and>
   stab_nearest table_alias 0x300 [] 64 0 = Some (0, ''c'', 0) \<and>
   stab_nearest table_alias 0xFF [] 64 0 = Some (-1, [], 0)"
  by code_simp

text \<open>
  Claim C2 as stated says that the name of an entry is returned. With a buffer of two
  bytes the name ab comes back as a, which is the name of no entry.
\<close>

theorem nearest_short_buffer_counterexample:
  "stab_set True True stab_new ''ab'' 0x100 = (0, table_ab) \<and>
   stab_nearest table_ab 0x100 [] 2 0 = Some (0, ''a'', 0) \<and>
   ''a'' \<notin> snd ` fst ` set (addr table_ab)"
  by code_simp

text \<open>
  Claim C8 (not-found of nearest). With a buffer of max_len > 0 bytes, nearest(q)
  reports not-found exactly when the address index is empty or q is strictly below
  every stored address, and it succeeds exactly in all other cases.
\<close>

theorem nearest_not_found_iff:
  assumes wf: "stab_wf st" and buf: "0 < max_len"
  shows "((\<exists>n off. stab_nearest st q ret_name max_len ret_offset = Some (-1, n, off)) \<longleftrightarrow>
            addr st = [] \<or> (\<forall>k \<in> fst ` set (addr st). q < fst k)) \<and>
         ((\<exists>n off. stab_nearest st q ret_name max_len ret_offset = Some (0, n, off)) \<longleftrightarrow>
            \<not> (addr st = [] \<or> (\<forall>k \<in> fst ` set (addr st). q < fst k)))"
proof (cases "btree_find_le addr_key_compare (addr st) (q, replicate 64 (CHR 0xFF))")
  case None
  then have "\<forall>k \<in> fst ` set (addr st). q < fst k"
    by (simp add: stab_nearest_none [OF wf])
  with None show ?thesis by (simp add: stab_nearest_eq)
next
  case (Some i)
  then have "\<not> (\<forall>k \<in> fst ` set (addr st). q < fst k)"
    using stab_nearest_none [OF wf, of q] by simp
  moreover from this have "addr st \<noteq> []" by auto
  ultimately show ?thesis using buf by (simp add: stab_nearest_eq Some)
qed

theorem nearest_not_found_iff_witness:
  "stab_wf table_alias \<and> (0::int) < 64 \<and>
   (\<exists>n off. stab_nearest table_alias 0x105 [] 64 0 = Some (0, n, off))"
proof -
  have wf: "stab_wf table_alias" by (rule stab_wf_table_alias)
  have buf: "(0::int) < 64" by simp
  have "\<not> (addr table_alias = [] \<or> (\<forall>k \<in> fst ` set (addr table_alias). (0x105 :: address_t) < fst k))"
    by code_simp
  with nearest_not_found_iff [OF wf buf, of "0x105" "[]" 0] wf buf show ?thesis by blast
qed

text \<open>
  Claim C9 (outputs untouched on not-found). When the name is absent from the name
  index, get returns -1 and the value location keeps its content; whenever get
  reports a failure the value location is unchanged. When no stored address is at or
  below q, nearest returns -1 and the name buffer and the offset location keep their
  contents; whenever nearest reports a failure both are unchanged.
\<close>

theorem not_found_leaves_outputs:
  "(sym_key_init n \<notin> fst ` set (sym st) \<longrightarrow> stab_get st n v = (-1, v)) \<and>
   (fst (stab_get st n v) \<noteq> 0 \<longrightarrow> stab_get st n v = (-1, v)) \<and>
   (stab_wf st \<longrightarrow> (\<forall>k \<in> fst ` set (addr st). q < fst k) \<longrightarrow>
      stab_nearest st q ret_name max_len ret_offset = Some (-1, ret_name, ret_offset)) \<and>
   (\<forall>r n' off. stab_nearest st q ret_name max_len ret_offset = Some (r, n', off) \<longrightarrow> r \<noteq> 0 \<longrightarrow>
      r = -1 \<and> n' = ret_name \<and> off = ret_offset)"
proof (intro conjI impI allI)
  assume "sym_key_init n \<notin> fst ` set (sym st)"
  then show "stab_get st n v = (-1, v)"
    by (simp add: stab_get_eq sym_get_None_iff [symmetric])
next
  assume "fst (stab_get st n v) \<noteq> 0"
  then show "stab_get st n v = (-1, v)"
    by (simp add: stab_get_eq split: option.splits)
next
  assume "stab_wf st" and "\<forall>k \<in> fst ` set (addr st). q < fst k"
  then have "btree_find_le addr_key_compare (addr st) (q, replicate 64 (CHR 0xFF)) = None"
    using stab_nearest_none [of st q] by blast
  then show "stab_nearest st q ret_name max_len ret_offset = Some (-1, ret_name, ret_offset)"
    by (simp add: stab_nearest_eq)
next
  fix r n' off
  assume "stab_nearest st q ret_name max_len ret_offset = Some (r, n', off)" and "r \<noteq> 0"
  then show "r = -1" "n' = ret_name" "off = ret_offset"
    by (auto simp: stab_nearest_eq split: option.splits if_splits)
qed

theorem not_found_leaves_outputs_witness:
  "sym_key_init ''zz'' \<notin> fst ` set (sym table_alias) \<and>
   stab_get table_alias ''zz'' 7 = (-1, 7) \<and>
   stab_wf table_alias \<and>
   stab_nearest table_alias 0xFF ''old'' 64 9 = Some (-1, ''old'', 9)"
proof -
  have absent: "sym_key_init ''zz'' \<notin> fst ` set (sym table_alias)" by code_simp
  have wf: "stab_wf table_alias" by (rule stab_wf_table_alias)
  have above: "\<forall>k \<in> fst ` set (addr table_alias). (0xFF :: address_t) < fst k" by code_simp
  from not_found_leaves_outputs [of "''zz''" table_alias 7 "0xFF" "''old''" 64 9] absent wf above
  show ?thesis by blast
qed

section \<open>Deleting a name\<close>

lemma stab_del_absent:
  assumes "btree_get sym_key_compare (sym st) (sym_key_init n) = None"
  shows "stab_del st n = (-1, st)"
  using assms by (simp add: stab_del_eq)

lemma stab_del_present:
  assumes c: "stab_consistent st"
    and present: "btree_get sym_key_compare (sym st) (sym_key_init n) = Some a"
    and del: "stab_del st n = (r, st')"
  shows "r = 0"
    and "stab_consistent st'"
    and "set (sym st') = set (sym st) - {(sym_key_init n, a)}"
    and "set (addr st') = set (addr st) - {((a, sym_key_init n), ())}"
    and "sym_key_init n \<notin> fst ` set (sym st')"
    and "sym_key_init n \<notin> snd ` fst ` set (addr st')"
proof -
  let ?k = "sym_key_init n"
  from c have wf: "stab_wf st" by (simp add: stab_consistent_def)
  from wf have s1: "btree_sorted sym_key_compare (sym st)"
    and s2: "btree_sorted addr_key_compare (addr st)"
    by (simp_all add: stab_wf_def)
  from del present show "r = 0" by (simp add: stab_del_eq)
  from del present have st': "st' = \<lparr>sym = btree_remove sym_key_compare ?k (sym st),
      addr = btree_remove addr_key_compare (a, ?k) (addr st)\<rparr>"
    by (simp add: stab_del_eq)
  from stab_consistent_del [OF c, of n] del show c': "stab_consistent st'" by simp
  have uniq: "b = a" if "(?k, b) \<in> set (sym st)" for b
    using that present sym_get_iff [OF wf, of ?k b] by simp
  have "set (sym st') = {e \<in> set (sym st). fst e \<noteq> ?k}"
    by (simp add: st' set_btree_remove [of sym_key_compare, OF sym_ord s1])
  moreover have "fst e \<noteq> ?k \<longleftrightarrow> e \<noteq> (?k, a)" if "e \<in> set (sym st)" for e
  proof (cases e)
    case (Pair m b)
    with that uniq [of b] show ?thesis by (cases "m = ?k") simp_all
  qed
  ultimately show sym': "set (sym st') = set (sym st) - {(?k, a)}"
    by blast
  have "set (addr st') = {e \<in> set (addr st). fst e \<noteq> (a, ?k)}"
    by (simp add: st' set_btree_remove [of addr_key_compare, OF addr_ord s2])
  moreover have "fst e \<noteq> (a, ?k) \<longleftrightarrow> e \<noteq> ((a, ?k), ())" for e :: "addr_key \<times> unit"
    by (cases e) simp
  ultimately show "set (addr st') = set (addr st) - {((a, ?k), ())}"
    by blast
  show absent: "?k \<notin> fst ` set (sym st')"
  proof
    assume "?k \<in> fst ` set (sym st')"
    then obtain b where b: "(?k, b) \<in> set (sym st')" by force
    with sym' have "(?k, b) \<in> set (sym st)" "(?k, b) \<noteq> (?k, a)" by simp_all
    with uniq [of b] show False by simp
  qed
  show "?k \<notin> snd ` fst ` set (addr st')"
  proof
    assume "?k \<in> snd ` fst ` set (addr st')"
    then obtain b where "((b, ?k), ()) \<in> set (addr st')" by force
    with c' have "(?k, b) \<in> set (sym st')" by (simp add: stab_consistent_iff)
    with absent show False by force
  qed
qed

lemma stab_nearest_resolves:
  assumes wf: "stab_wf st"
    and res: "stab_nearest st q ret_name max_len ret_offset = Some (0, n', off)"
  shows "\<exists>k \<in> fst ` set (addr st). n' = take (nat (max_len - 1)) (snd k) \<and> off = q - fst k \<and>
           (64 \<le> max_len \<longrightarrow> n' = snd k)"
proof (cases "btree_find_le addr_key_compare (addr st) (q, replicate 64 (CHR 0xFF))")
  case None
  with res show ?thesis by (simp add: stab_nearest_eq)
next
  case (Some i)
  from stab_nearest_some(1) [OF wf Some] have mem: "addr st ! i \<in> set (addr st)" by simp
  with wf have "length (snd (fst (addr st ! i))) < 64"
    by (auto simp: stab_wf_def list_all_iff)
  then have "64 \<le> max_len \<longrightarrow>
      take (nat (max_len - 1)) (snd (fst (addr st ! i))) = snd (fst (addr st ! i))"
    by simp
  moreover from res Some
  have "n' = take (nat (max_len - 1)) (snd (fst (addr st ! i)))" "off = q - fst (fst (addr st ! i))"
    by (simp_all add: stab_nearest_eq split: if_splits)
  ultimately show ?thesis using mem by (intro bexI [of _ "fst (addr st ! i)"]) simp_all
qed

lemma stab_del_removes:
  assumes wf: "stab_wf st"
    and present: "btree_get sym_key_compare (sym st) (sym_key_init n) = Some a"
    and del: "stab_del st n = (r, st')"
  shows "r = 0"
    and "stab_wf st'"
    and "set (sym st') = set (sym st) - {(sym_key_init n, a)}"
    and "set (addr st') = set (addr st) - {((a, sym_key_init n), ())}"
    and "sym_key_init n \<notin> fst ` set (sym st')"
proof -
  let ?k = "sym_key_init n"
  from wf have s1: "btree_sorted sym_key_compare (sym st)"
    and s2: "btree_sorted addr_key_compare (addr st)"
    by (simp_all add: stab_wf_def)
  from del present show "r = 0" by (simp add: stab_del_eq)
  from del present have st': "st' = \<lparr>sym = btree_remove sym_key_compare ?k (sym st),
      addr = btree_remove addr_key_compare (a, ?k) (addr st)\<rparr>"
    by (simp add: stab_del_eq)
  from stab_wf_del [OF wf, of n] del show "stab_wf st'" by simp
  have uniq: "b = a" if "(?k, b) \<in> set (sym st)" for b
    using that present sym_get_iff [OF wf, of ?k b] by simp
  have "set (sym st') = {e \<in> set (sym st). fst e \<noteq> ?k}"
    by (simp add: st' set_btree_remove [of sym_key_compare, OF sym_ord s1])
  moreover have "fst e \<noteq> ?k \<longleftrightarrow> e \<noteq> (?k, a)" if "e \<in> set (sym st)" for e
  proof (cases e)
    case (Pair m b)
    with that uniq [of b] show ?thesis by (cases "m = ?k") simp_all
  qed
  ultimately show sym': "set (sym st') = set (sym st) - {(?k, a)}"
    by blast
  have "set (addr st') = {e \<in> set (addr st). fst e \<noteq> (a, ?k)}"
    by (simp add: st' set_btree_remove [of addr_key_compare, OF addr_ord s2])
  moreover have "fst e \<noteq> (a, ?k) \<longleftrightarrow> e \<noteq> ((a, ?k), ())" for e :: "addr_key \<times> unit"
    by (cases e) simp
  ultimately show "set (addr st') = set (addr st) - {((a, ?k), ())}"
    by blast
  show "?k \<notin> fst ` set (sym st')"
  proof
    assume "?k \<in> fst ` set (sym st')"
    then obtain b where b: "(?k, b) \<in> set (sym st')" by force
    with sym' have "(?k, b) \<in> set (sym st)" "(?k, b) \<noteq> (?k, a)" by simp_all
    with uniq [of b] show False by simp
  qed
qed

text \<open>
  Claim C4, as amended (delete). On every table with sorted indexes, delete(name)
  returns not-found (-1) exactly when the stored form of the name is absent from the
  name index. Otherwise it returns 0 and removes exactly the name's entry from the name
  index and the (recorded address, name) entry from the address index; afterwards the
  name index does not hold the name and get(name) reports not-found, leaving its
  output alone. When in addition the two indexes held the same pairs before the call
  (as they do after any history without a failed insert), the address index holds no
  entry with the name afterwards, and every successful nearest query resolves to an
  entry with another name (so, with a buffer of at least 64 bytes, never returns the
  name).
\<close>

theorem delete_removes_name:
  assumes wf: "stab_wf st" and del: "stab_del st n = (r, st')"
  shows "(r = -1 \<longleftrightarrow> sym_key_init n \<notin> fst ` set (sym st)) \<and>
         (r \<noteq> -1 \<longrightarrow> r = 0 \<and>
            (\<exists>a. btree_get sym_key_compare (sym st) (sym_key_init n) = Some a \<and>
                 set (sym st') = set (sym st) - {(sym_key_init n, a)} \<and>
                 set (addr st') = set (addr st) - {((a, sym_key_init n), ())}) \<and>
            sym_key_init n \<notin> fst ` set (sym st') \<and>
            (\<forall>v. stab_get st' n v = (-1, v)) \<and>
            (stab_consistent st \<longrightarrow>
               sym_key_init n \<notin> snd ` fst ` set (addr st') \<and>
               (\<forall>q ret_name max_len ret_offset n' off.
                  stab_nearest st' q ret_name max_len ret_offset = Some (0, n', off) \<longrightarrow>
                    (\<exists>k \<in> fst ` set (addr st'). snd k \<noteq> sym_key_init n \<and>
                       n' = take (nat (max_len - 1)) (snd k) \<and> off = q - fst k) \<and>
                    (64 \<le> max_len \<longrightarrow> n' \<noteq> sym_key_init n))))"
proof (cases "btree_get sym_key_compare (sym st) (sym_key_init n)")
  case None
  with del have "r = -1" by (simp add: stab_del_absent)
  with None show ?thesis by (simp add: sym_get_None_iff)
next
  case (Some a)
  let ?k = "sym_key_init n"
  note d = stab_del_removes [OF wf Some del]
  from Some have present: "\<not> ?k \<notin> fst ` set (sym st)"
    using sym_get_None_iff [of st ?k] by simp
  have first: "r = -1 \<longleftrightarrow> ?k \<notin> fst ` set (sym st)"
    using d(1) present by simp
  have ex: "\<exists>a. btree_get sym_key_compare (sym st) ?k = Some a \<and>
                 set (sym st') = set (sym st) - {(?k, a)} \<and>
                 set (addr st') = set (addr st) - {((a, ?k), ())}"
    using Some d(3,4) by (intro exI [of _ a]) simp
  have get: "\<forall>v. stab_get st' n v = (-1, v)"
    using d(5) by (simp add: stab_get_eq sym_get_None_iff [symmetric])
  have cons: "?k \<notin> snd ` fst ` set (addr st') \<and>
               (\<forall>q ret_name max_len ret_offset n' off.
                  stab_nearest st' q ret_name max_len ret_offset = Some (0, n', off) \<longrightarrow>
                    (\<exists>k \<in> fst ` set (addr st'). snd k \<noteq> ?k \<and>
                       n' = take (nat (max_len - 1)) (snd k) \<and> off = q - fst k) \<and>
                    (64 \<le> max_len \<longrightarrow> n' \<noteq> ?k))"
    if c: "stab_consistent st"
  proof -
    note p = stab_del_present [OF c Some del]
    have near: "(\<exists>k \<in> fst ` set (addr st'). snd k \<noteq> ?k \<and>
                   n' = take (nat (max_len - 1)) (snd k) \<and> off = q - fst k) \<and>
                (64 \<le> max_len \<longrightarrow> n' \<noteq> ?k)"
      if "stab_nearest st' q ret_name max_len ret_offset = Some (0, n', off)"
      for q ret_name max_len ret_offset n' off
    proof -
      from stab_nearest_resolves [OF d(2) that]
      obtain k where k: "k \<in> fst ` set (addr st')" "n' = take (nat (max_len - 1)) (snd k)"
        "off = q - fst k" "64 \<le> max_len \<longrightarrow> n' = snd k"
        by blast
      from k(1) p(6) have neq: "snd k \<noteq> ?k" by force
      with k(4) have "64 \<le> max_len \<longrightarrow> n' \<noteq> ?k" by simp
      moreover from k(1,2,3) neq
      have "\<exists>k \<in> fst ` set (addr st'). snd k \<noteq> ?k \<and>
              n' = take (nat (max_len - 1)) (snd k) \<and> off = q - fst k"
        by (intro bexI [of _ k]) simp_all
      ultimately show ?thesis by (rule conjI [rotated])
    qed
    then have "\<forall>q ret_name max_len ret_offset n' off.
                  stab_nearest st' q ret_name max_len ret_offset = Some (0, n', off) \<longrightarrow>
                    (\<exists>k \<in> fst ` set (addr st'). snd k \<noteq> ?k \<and>
                       n' = take (nat (max_len - 1)) (snd k) \<and> off = q - fst k) \<and>
                    (64 \<le> max_len \<longrightarrow> n' \<noteq> ?k)"
      by blast
    with p(6) show ?thesis by (rule conjI)
  qed
  show ?thesis
    apply (rule conjI)
     apply (rule first)
    apply (rule impI)
    apply (rule conjI)
     apply (rule d(1))
    apply (rule conjI)
     apply (rule ex)
    apply (rule conjI)
     apply (rule d(5))
    apply (rule conjI)
     apply (rule get)
    apply (rule impI)
    apply (erule cons)
    done
qed

theorem delete_removes_name_witness:
  "stab_wf (run history1) \<and> stab_consistent (run history1) \<and>
   stab_del (run history1) ''foo''
     = (0, \<lparr>sym = [(''baz'', 0x2000)], addr = [((0x2000, ''baz''), ())]\<rparr>) \<and>
   stab_get \<lparr>sym = [(''baz'', 0x2000)], addr = [((0x2000, ''baz''), ())]\<rparr> ''foo'' 7 = (-1, 7) \<and>
   sym_key_init ''foo'' \<notin>
     snd ` fst ` set (addr \<lparr>sym = [(''baz'', 0x2000)], addr = [((0x2000, ''baz''), ())]\<rparr>)"
proof -
  have wf: "stab_wf (run history1)" by (rule stab_wf_run)
  have c: "stab_consistent (run history1)" by (rule stab_consistent_run)
  have del: "stab_del (run history1) ''foo''
     = (0, \<lparr>sym = [(''baz'', 0x2000)], addr = [((0x2000, ''baz''), ())]\<rparr>)"
    by code_simp
  have ne: "(0::int) \<noteq> -1" by simp
  note body = delete_removes_name [OF wf del, THEN conjunct2, THEN mp, OF ne]
  note rest = body [THEN conjunct2, THEN conjunct2, THEN conjunct2]
  have get: "stab_get \<lparr>sym = [(''baz'', 0x2000)], addr = [((0x2000, ''baz''), ())]\<rparr> ''foo'' 7
      = (-1, 7)"
    by (rule rest [THEN conjunct1, THEN spec])
  have gone: "sym_key_init ''foo'' \<notin>
      snd ` fst ` set (addr \<lparr>sym = [(''baz'', 0x2000)], addr = [((0x2000, ''baz''), ())]\<rparr>)"
    by (rule rest [THEN conjunct2, THEN mp, OF c, THEN conjunct1])
  from wf c del get gone show ?thesis by blast
qed

text \<open>
  Claim C4 as stated promises this of every successful delete. After set(n, 1) and a
  set(n, 2) whose name-index insert failed, the address index holds (2, n) while the
  name index records the address 1: delete(n) succeeds and removes the name from the
  name index, but the entry (2, n) stays, and nearest(5) still resolves to n.
\<close>

theorem delete_after_failed_set_counterexample:
  "stab_set True True stab_new ''n'' 1 = (0, table_n) \<and>
   stab_set True False table_n ''n'' 2 = (-1, table_half) \<and>
   stab_wf table_half \<and>
   stab_del table_half ''n'' = (0, \<lparr>sym = [], addr = [((2, ''n''), ())]\<rparr>) \<and>
   stab_nearest \<lparr>sym = [], addr = [((2, ''n''), ())]\<rparr> 5 [] 64 0 = Some (0, ''n'', 3)"
  by code_simp

section \<open>Enumeration\<close>

declare stab_enum_loop.simps [simp del]

lemma stab_enum_loop_done: "stab_enum_loop bt cb u (c, None) = (0, u)"
  by (subst stab_enum_loop.simps) simp

lemma stab_enum_loop_step:
  "stab_enum_loop bt cb u (Some i, Some e) =
     (case cb u (snd (fst e)) (fst (fst e)) of
        (r, u') \<Rightarrow>
          if r < 0 then (-1, u')
          else stab_enum_loop bt cb u'
                 (if Suc i < length bt then (Some (Suc i), Some (bt ! Suc i)) else (None, None)))"
  by (subst stab_enum_loop.simps) (simp add: btree_select_def split: prod.splits)

lemma stab_enum_loop_from:
  "i < length bt \<Longrightarrow>
   stab_enum_loop bt cb u (Some i, Some (bt ! i)) = enum_from cb (drop i bt) u"
proof (induction "length bt - i" arbitrary: i u)
  case 0
  then show ?case by simp
next
  case (Suc d)
  from Suc.prems have drop: "drop i bt = bt ! i # drop (Suc i) bt"
    by (simp add: Cons_nth_drop_Suc)
  show ?case
  proof (cases "Suc i < length bt")
    case True
    with Suc.hyps(2) have "d = length bt - Suc i" by simp
    from Suc.hyps(1) [OF this True]
    have "stab_enum_loop bt cb u' (Some (Suc i), Some (bt ! Suc i)) = enum_from cb (drop (Suc i) bt) u'"
      for u' .
    with True show ?thesis
      by (simp add: stab_enum_loop_step drop split: prod.splits)
  next
    case False
    with Suc.prems have "drop (Suc i) bt = []" by simp
    with False show ?thesis
      by (simp add: stab_enum_loop_step drop stab_enum_loop_done split: prod.splits)
  qed
qed

lemma stab_enum_eq: "stab_enum st cb u = enum_from cb (addr st) u"
proof (cases "addr st")
  case Nil
  then show ?thesis
    by (simp add: stab_enum_def btree_select_def stab_enum_loop_done)
next
  case (Cons e es)
  then have "0 < length (addr st)" by simp
  from stab_enum_loop_from [OF this, of cb u] Cons show ?thesis
    by (simp add: stab_enum_def btree_select_def)
qed

lemma enum_from_logged:
  assumes "enum_from (logged cb) es (u, l0) = (r, (u', log))"
  shows "enum_from cb es u = (r, u') \<and>
         (\<exists>m. log = l0 @ m \<and>
            map (\<lambda>e. (fst e, fst (snd e))) m =
              take (length m) (map (\<lambda>e. (snd (fst e), fst (fst e))) es) \<and>
            list_all (\<lambda>e. 0 \<le> snd (snd e)) (butlast m) \<and>
            (r = 0 \<and> length m = length es \<and> list_all (\<lambda>e. 0 \<le> snd (snd e)) m \<or>
             r = -1 \<and> m \<noteq> [] \<and> snd (snd (last m)) < 0))"
  using assms
proof (induction es arbitrary: u l0)
  case Nil
  then show ?case by simp
next
  case (Cons e es)
  obtain rc u1 where cb: "cb u (snd (fst e)) (fst (fst e)) = (rc, u1)"
    by (cases "cb u (snd (fst e)) (fst (fst e))")
  let ?x = "(snd (fst e), fst (fst e), rc)"
  have lg: "logged cb (u, l0) (snd (fst e)) (fst (fst e)) = (rc, (u1, l0 @ [?x]))"
    by (simp add: logged_def cb)
  show ?case
  proof (cases "rc < 0")
    case True
    with Cons.prems lg have "r = -1" "u' = u1" "log = l0 @ [?x]" by simp_all
    with True cb show ?thesis by (simp add: exI [of _ "[?x]"])
  next
    case False
    with Cons.prems lg have "enum_from (logged cb) es (u1, l0 @ [?x]) = (r, (u', log))"
      by simp
    from Cons.IH [OF this] obtain m where
      run: "enum_from cb es u1 = (r, u')" and log: "log = (l0 @ [?x]) @ m"
      and vis: "map (\<lambda>e. (fst e, fst (snd e))) m =
                  take (length m) (map (\<lambda>e. (snd (fst e), fst (fst e))) es)"
      and ok: "list_all (\<lambda>e. 0 \<le> snd (snd e)) (butlast m)"
      and fin: "r = 0 \<and> length m = length es \<and> list_all (\<lambda>e. 0 \<le> snd (snd e)) m \<or>
                r = -1 \<and> m \<noteq> [] \<and> snd (snd (last m)) < 0"
      by blast
    have 1: "enum_from cb (e # es) u = (r, u')"
      using False cb run by simp
    have 2: "log = l0 @ (?x # m)" using log by simp
    have 3: "map (\<lambda>e. (fst e, fst (snd e))) (?x # m) =
               take (length (?x # m)) (map (\<lambda>e. (snd (fst e), fst (fst e))) (e # es))"
      using vis by simp
    have 4: "list_all (\<lambda>e. 0 \<le> snd (snd e)) (butlast (?x # m))"
      using ok False by simp
    have 5: "r = 0 \<and> length (?x # m) = length (e # es) \<and>
               list_all (\<lambda>e. 0 \<le> snd (snd e)) (?x # m) \<or>
             r = -1 \<and> ?x # m \<noteq> [] \<and> snd (snd (last (?x # m))) < 0"
      using fin False by auto
    from 1 2 3 4 5 show ?thesis by blast
  qed
qed

lemma stab_entries_sorted:
  assumes "stab_wf st"
  shows "sorted_wrt (\<lambda>x y. snd x < snd y \<or> snd x = snd y \<and> strcmp (fst x) (fst y) < 0)
           (stab_entries st)"
proof -
  from assms have "sorted_wrt (\<lambda>x y. addr_key_compare (fst x) (fst y) < 0) (addr st)"
    by (simp add: stab_wf_def btree_sorted_def)
  moreover have "addr_key_compare k l < 0 \<longleftrightarrow>
      fst k < fst l \<or> fst k = fst l \<and> strcmp (snd k) (snd l) < 0" for k l
    by (auto simp: addr_key_compare_def)
  ultimately show ?thesis
    by (simp add: stab_entries_def sorted_wrt_map)
qed

lemma stab_entries_distinct:
  assumes "stab_wf st"
  shows "distinct (stab_entries st)"
proof -
  from assms have "distinct (map fst (addr st))"
    by (simp add: stab_wf_def btree_sorted_distinct [of addr_key_compare, OF addr_key_compare_less])
  moreover have "stab_entries st = map (\<lambda>k. (snd k, fst k)) (map fst (addr st))"
    by (simp add: stab_entries_def)
  moreover have "inj (\<lambda>k :: addr_key. (snd k, fst k))"
    by (auto intro!: injI simp: prod_eq_iff)
  ultimately show ?thesis
    by (simp only: distinct_map) (simp add: inj_on_def prod_eq_iff)
qed

text \<open>
  On a table reached without a failed insert the entries of the address index are
  those of the name index, so the enumeration visits every stored (name, address) pair.
\<close>

lemma stab_entries_run: "set (stab_entries (run ops)) = set (sym (run ops))"
proof -
  have c: "stab_consistent (run ops)" by (rule stab_consistent_run)
  have "(n, a) \<in> set (stab_entries (run ops)) \<longleftrightarrow> (n, a) \<in> set (sym (run ops))" for n a
  proof -
    have "(n, a) \<in> set (stab_entries (run ops)) \<longleftrightarrow> ((a, n), ()) \<in> set (addr (run ops))"
      by (force simp: stab_entries_def)
    with c show ?thesis by (simp add: stab_consistent_iff)
  qed
  then show ?thesis by (intro set_eqI) (simp add: split_paired_all)
qed

text \<open>
  Claim C5 (enumeration). The stored entries, in the order of the address index, are
  strictly ascending by address and, at equal addresses, by name in byte order, and no
  entry occurs twice. Running enumerate with a visitor that records its invocations
  gives the same return code and user data as running it with the visitor itself, and
  the record shows what was visited: a prefix of that ascending sequence, each entry
  once and in order, every invocation but the last having returned no error. Either
  the return code is 0 and every entry was visited without error, or the return code
  is -1 and the last invocation is the one that returned the error: exactly the
  entries before the failing one were delivered, and none after it.
\<close>

theorem enum_visits_in_order:
  assumes wf: "stab_wf st"
    and run: "stab_enum st (logged cb) (u, []) = (r, (u', log))"
  shows "stab_enum st cb u = (r, u') \<and>
         sorted_wrt (\<lambda>x y. snd x < snd y \<or> snd x = snd y \<and> strcmp (fst x) (fst y) < 0)
           (stab_entries st) \<and>
         distinct (stab_entries st) \<and>
         map (\<lambda>e. (fst e, fst (snd e))) log = take (length log) (stab_entries st) \<and>
         list_all (\<lambda>e. 0 \<le> snd (snd e)) (butlast log) \<and>
         (r = 0 \<and> length log = length (stab_entries st) \<and> list_all (\<lambda>e. 0 \<le> snd (snd e)) log \<or>
          r = -1 \<and> log \<noteq> [] \<and> snd (snd (last log)) < 0)"
proof -
  from run have "enum_from (logged cb) (addr st) (u, []) = (r, (u', log))"
    by (simp add: stab_enum_eq)
  from enum_from_logged [OF this]
  have "enum_from cb (addr st) u = (r, u')"
    and "map (\<lambda>e. (fst e, fst (snd e))) log = take (length log) (stab_entries st)"
    and "list_all (\<lambda>e. 0 \<le> snd (snd e)) (butlast log)"
    and "r = 0 \<and> length log = length (stab_entries st) \<and> list_all (\<lambda>e. 0 \<le> snd (snd e)) log \<or>
         r = -1 \<and> log \<noteq> [] \<and> snd (snd (last log)) < 0"
    by (auto simp: stab_entries_def)
  with stab_entries_sorted [OF wf] stab_entries_distinct [OF wf] show ?thesis
    by (simp add: stab_enum_eq)
qed

theorem enum_visits_in_order_witness:
  "stab_wf table_alias \<and>
   stab_enum table_alias (logged fail_on_b) (0, [])
     = (-1, (2, [(''a'', 0x100, 0), (''b'', 0x100, -1)])) \<and>
   stab_enum table_alias fail_on_b 0 = (-1, 2)"
proof -
  have wf: "stab_wf table_alias" by (rule stab_wf_table_alias)
  have run: "stab_enum table_alias (logged fail_on_b) (0, [])
     = (-1, (2, [(''a'', 0x100, 0), (''b'', 0x100, -1)]))"
    by (simp add: stab_enum_eq table_alias_def logged_def fail_on_b_def)
  from enum_visits_in_order [OF wf run] wf run show ?thesis by blast
qed

text \<open>
The enumeration example of the spec: c, a, b are inserted and a, b, c are visited.
\<close>

lemma enum_order_example:
  "stab_enum (run [Op_set ''c'' 0x300, Op_set ''a'' 0x100, Op_set ''b'' 0x200])
     (logged (\<lambda>u n a. (0, u))) ((), [])
   = (0, ((), [(''a'', 0x100, 0), (''b'', 0x200, 0), (''c'', 0x300, 0)]))"
proof -
  have "run [Op_set ''c'' 0x300, Op_set ''a'' 0x100, Op_set ''b'' 0x200] =
        \<lparr>sym = [(''a'', 0x100), (''b'', 0x200), (''c'', 0x300)],
         addr = [((0x100, ''a''), ()), ((0x200, ''b''), ()), ((0x300, ''c''), ())]\<rparr>"
    by code_simp
  then show ?thesis by (simp add: stab_enum_eq logged_def)
qed

section \<open>Write failures\<close>

lemma stab_del_code:
  "fst (stab_del st n) =
     (if btree_get sym_key_compare (sym st) (sym_key_init n) = None then -1 else 0)"
  by (simp add: stab_del_eq split: option.splits)

text \<open>
  Claim C7, as amended (write failures). set returns 0 exactly when both index
  inserts succeed and -1 exactly when one of them fails. After a failed insert the
  update is not rolled back: the name index is as before, the stale address entry of
  the name stays removed (unless it is the very entry the address insert put back),
  the new address entry stays inserted when only the name-index insert failed, and
  nothing else is added to the address index. The results of the index deletes are
  not looked at: delete returns -1 exactly when the name is absent from the name index
  and 0 otherwise.
\<close>

theorem write_failure_reported:
  assumes wf: "stab_wf st"
    and res: "stab_set ok_addr ok_sym st n a = (r, st')"
  shows "(r = 0 \<longleftrightarrow> ok_addr \<and> ok_sym) \<and>
         (r = -1 \<longleftrightarrow> \<not> (ok_addr \<and> ok_sym)) \<and>
         (\<not> (ok_addr \<and> ok_sym) \<longrightarrow>
            sym st' = sym st \<and>
            (\<forall>old. btree_get sym_key_compare (sym st) (sym_key_init n) = Some old \<longrightarrow>
               (ok_addr \<and> old = a) \<or> (old, sym_key_init n) \<notin> fst ` set (addr st')) \<and>
            (ok_addr \<longrightarrow> (a, sym_key_init n) \<in> fst ` set (addr st')) \<and>
            (\<not> ok_addr \<longrightarrow> (\<forall>k \<in> fst ` set (addr st'). k \<in> fst ` set (addr st)))) \<and>
         (fst (stab_del st n) = 0 \<longleftrightarrow>
            btree_get sym_key_compare (sym st) (sym_key_init n) \<noteq> None) \<and>
         (fst (stab_del st n) = -1 \<longleftrightarrow>
            btree_get sym_key_compare (sym st) (sym_key_init n) = None)"
proof -
  let ?k = "sym_key_init n"
  have s2: "btree_sorted addr_key_compare (addr_without st ?k)"
    by (rule sorted_addr_without [OF wf])
  have codes: "(r = 0 \<longleftrightarrow> ok_addr \<and> ok_sym) \<and> (r = -1 \<longleftrightarrow> \<not> (ok_addr \<and> ok_sym))"
    using res by (auto simp: stab_set_eq split: if_splits)
  have del: "(fst (stab_del st n) = 0 \<longleftrightarrow>
               btree_get sym_key_compare (sym st) ?k \<noteq> None) \<and>
             (fst (stab_del st n) = -1 \<longleftrightarrow>
               btree_get sym_key_compare (sym st) ?k = None)"
    by (simp add: stab_del_code)
  have stale: "(old, ?k) \<notin> fst ` set (addr_without st ?k)"
    if "btree_get sym_key_compare (sym st) ?k = Some old" for old
    using that by (auto simp: set_addr_without [OF wf])
  have sub: "k \<in> fst ` set (addr st)" if "k \<in> fst ` set (addr_without st ?k)" for k
    using that by (auto simp: set_addr_without [OF wf] split: option.splits)
  have part: "sym st' = sym st \<and>
            (\<forall>old. btree_get sym_key_compare (sym st) ?k = Some old \<longrightarrow>
               (ok_addr \<and> old = a) \<or> (old, ?k) \<notin> fst ` set (addr st')) \<and>
            (ok_addr \<longrightarrow> (a, ?k) \<in> fst ` set (addr st')) \<and>
            (\<not> ok_addr \<longrightarrow> (\<forall>k \<in> fst ` set (addr st'). k \<in> fst ` set (addr st)))"
    if fail: "\<not> (ok_addr \<and> ok_sym)"
  proof (cases ok_addr)
    case False
    with res have st': "st' = \<lparr>sym = sym st, addr = addr_without st ?k\<rparr>"
      by (simp add: stab_set_eq)
    from False stale sub show ?thesis by (simp add: st')
  next
    case True
    with fail res have st': "st' = \<lparr>sym = sym st,
        addr = btree_insert addr_key_compare (a, ?k) () (addr_without st ?k)\<rparr>"
      by (simp add: stab_set_eq)
    have mem: "k \<in> fst ` set (addr st') \<longleftrightarrow> k = (a, ?k) \<or> k \<in> fst ` set (addr_without st ?k)"
      for k
      by (force simp: st' set_btree_insert [of addr_key_compare, OF addr_ord s2])
    have "old = a \<or> (old, ?k) \<notin> fst ` set (addr st')"
      if "btree_get sym_key_compare (sym st) ?k = Some old" for old
      using stale [OF that] by (simp add: mem)
    with True show ?thesis by (simp add: mem) (simp add: st')
  qed
  from codes part del show ?thesis by blast
qed

theorem write_failure_reported_witness:
  "stab_wf table_n \<and> stab_set True False table_n ''n'' 2 = (-1, table_half) \<and>
   sym table_half = sym table_n \<and>
   (2, sym_key_init ''n'') \<in> fst ` set (addr table_half)"
proof -
  have wf: "stab_wf table_n" by code_simp
  have res: "stab_set True False table_n ''n'' 2 = (-1, table_half)" by code_simp
  from write_failure_reported [OF wf res] wf res show ?thesis by blast
qed

text \<open>
  Claim C7 as stated also promises a failure result when an index delete fails. After
  set(n, 1) and a set(n, 2) whose name-index insert failed, the name index records the
  address 1 and the address index holds (2, n): in delete(n) the delete of (1, n) from
  the address index reports not-found, and delete(n) returns 0.
\<close>

theorem failed_delete_unreported_counterexample:
  "stab_set True True stab_new ''n'' 1 = (0, table_n) \<and>
   stab_set True False table_n ''n'' 2 = (-1, table_half) \<and>
   fst (btree_delete addr_key_compare (addr table_half) (addr_key_init 1 ''n'')) = 1 \<and>
   stab_del table_half ''n'' = (0, \<lparr>sym = [], addr = [((2, ''n''), ())]\<rparr>)"
  by code_simp


end
